theory Spec2Isabelle
  imports Complex_Main "HOL-Library.Multiset" "HOL-Library.Char_ord" "HOL-Library.List_Lexorder"
    "HOL-Library.Word"
begin

unbundle bit_operations_syntax

section \<open>Data model of package hosts\<close>

text \<open>
  Go strings are byte sequences: \<^typ>\<open>string\<close>. A latency is a \<open>float64\<close> number of
  milliseconds; every value the program produces is a finite, non-NaN float, hence a
  rational number, and the program only compares such values: \<^typ>\<open>rat\<close>.
\<close>

definition PingTimeoutSec :: nat where
  "PingTimeoutSec = 1"

definition PingCount :: nat where
  "PingCount = 3"

definition MaxConcurrent :: nat where
  "MaxConcurrent = 10"

definition DiscardList :: "string list" where
  "DiscardList = [''1.0.1.1'', ''1.2.1.1'', ''127.0.0.1'']"

definition DNSServers :: "string list" where
  "DNSServers = [''1.1.1.1:53'', ''8.8.8.8:53'', ''101.101.101.101:53'', ''101.102.103.104:53'']"

text \<open>The value \<open>float64(PingTimeoutSec * 1000)\<close>.\<close>

definition timeout_ms :: rat where
  "timeout_ms = of_nat (PingTimeoutSec * 1000)"

record HostResult =
  Domain :: string
  IP :: string
  Ping :: rat
  Error :: string

section \<open>Rendering: fmt.Sprintf, GenerateHostsContent, WriteHostsFile\<close>

text \<open>
  \<open>fmt\<close> pads a \<open>%-30s\<close> operand with spaces on the right up to a width counted in
  runes by \<open>utf8.RuneCountInString\<close>. \<open>rune_len s\<close> is the number of bytes that function
  skips at the head of a non-empty \<open>s\<close>: the length of a well-formed UTF-8 sequence, and 1
  for an ASCII byte or for anything malformed. \<open>first_byte\<close> is the table \<open>utf8.first\<close>:
  the sequence length and the accepted range of the second byte.
\<close>

definition first_byte :: "nat \<Rightarrow> (nat \<times> nat \<times> nat) option" where
  "first_byte c =
     (if 0xC2 \<le> c \<and> c \<le> 0xDF then Some (2, 0x80, 0xBF)
      else if c = 0xE0 then Some (3, 0xA0, 0xBF)
      else if c = 0xED then Some (3, 0x80, 0x9F)
      else if 0xE1 \<le> c \<and> c \<le> 0xEF then Some (3, 0x80, 0xBF)
      else if c = 0xF0 then Some (4, 0x90, 0xBF)
      else if 0xF1 \<le> c \<and> c \<le> 0xF3 then Some (4, 0x80, 0xBF)
      else if c = 0xF4 then Some (4, 0x80, 0x8F)
      else None)"

definition cont_byte :: "char \<Rightarrow> bool" where
  "cont_byte c = (0x80 \<le> (of_char c :: nat) \<and> (of_char c :: nat) \<le> 0xBF)"

definition rune_len :: "string \<Rightarrow> nat" where
  "rune_len s =
     (case s of
        [] \<Rightarrow> 1
      | c # cs \<Rightarrow>
         (if (of_char c :: nat) < 0x80 then 1
          else case first_byte (of_char c) of
            None \<Rightarrow> 1
          | Some (sz, lo, hi) \<Rightarrow>
             if length s < sz then 1
             else if (of_char (s ! 1) :: nat) < lo \<or> hi < (of_char (s ! 1) :: nat) then 1
             else if sz = 2 then 2
             else if \<not> cont_byte (s ! 2) then 1
             else if sz = 3 then 3
             else if \<not> cont_byte (s ! 3) then 1
             else 4))"

lemma rune_len_pos: "0 < rune_len s"
  by (auto simp: rune_len_def split: list.splits option.splits prod.splits)

function RuneCountInString :: "string \<Rightarrow> nat" where
  "RuneCountInString s = (if s = [] then 0 else Suc (RuneCountInString (drop (rune_len s) s)))"
  by pat_completeness auto
termination
  by (relation "measure length") (use rune_len_pos in \<open>auto simp: Suc_le_eq\<close>)

declare RuneCountInString.simps [simp del]

text \<open>\<open>fmt.Sprintf("%-30s %s", ip, domain)\<close>.\<close>

definition Sprintf_host :: "string \<Rightarrow> string \<Rightarrow> string" where
  "Sprintf_host ip domain =
     ip @ replicate (30 - RuneCountInString ip) CHR '' '' @ '' '' @ domain"

definition newline :: string where
  "newline = [CHR 0x0A]"

text \<open>
  The three header lines and the blank line. The second and third lines start with the
  UTF-8 bytes of the labels in the source; \<open>currentTime\<close> is
  \<open>time.Now().Format("2006-01-02 15:04:05")\<close>, an input of the model.
\<close>

definition label_updated :: string where
  "label_updated = [CHR 0xE6, CHR 0x9B, CHR 0xB4, CHR 0xE6, CHR 0x96, CHR 0xB0,
                    CHR 0xE6, CHR 0x97, CHR 0xB6, CHR 0xE9, CHR 0x97, CHR 0xB4]"

definition label_project :: string where
  "label_project = [CHR 0xE9, CHR 0xA1, CHR 0xB9, CHR 0xE7, CHR 0x9B, CHR 0xAE,
                    CHR 0xE5, CHR 0x9C, CHR 0xB0, CHR 0xE5, CHR 0x9D, CHR 0x80]"

definition header :: "string \<Rightarrow> string" where
  "header currentTime =
     ''# Hosts'' @ newline
     @ ''# '' @ label_updated @ '': '' @ currentTime @ newline
     @ ''# '' @ label_project @ '': https://github.com/ineo6/hosts'' @ newline
     @ newline"

text \<open>
  GenerateHostsContent: the \<open>strings.Builder\<close> is the accumulated text; the loop body
  formats one result, appends the timeout mark and writes the line.
\<close>

fun content_loop :: "string \<Rightarrow> HostResult list \<Rightarrow> string" where
  "content_loop content [] = content"
| "content_loop content (result # results) =
     (let line = Sprintf_host (IP result) (Domain result);
          line = (if Ping result \<ge> timeout_ms then line @ ''  # Timeout'' else line)
      in content_loop (content @ (line @ newline)) results)"

definition GenerateHostsContent :: "string \<Rightarrow> HostResult list \<Rightarrow> string" where
  "GenerateHostsContent currentTime results =
     (let content = [];
          content = content @ ''# Hosts'' @ newline;
          content = content @ (''# '' @ label_updated @ '': '' @ currentTime @ newline);
          content = content @ ''# '' @ label_project @ '': https://github.com/ineo6/hosts'' @ newline;
          content = content @ newline
      in content_loop content results)"

text \<open>
  WriteHostsFile: \<open>os.Create\<close> either fails, and the function returns that error with
  nothing written, or gives an empty file. Every \<open>fmt.Fprintf\<close> appends to the buffered
  writer; the deferred \<open>Flush\<close> runs before the deferred \<open>Close\<close>, so the file ends up
  with the whole buffer. The result is the returned error and the text in the file.
\<close>

datatype fs_error = CreateFailed

fun Fprintf_lines :: "string \<Rightarrow> HostResult list \<Rightarrow> string" where
  "Fprintf_lines writer [] = writer"
| "Fprintf_lines writer (result # results) =
     (let line = Sprintf_host (IP result) (Domain result);
          line = (if Ping result \<ge> timeout_ms then line @ ''  # Timeout'' else line);
          writer = writer @ line @ newline
      in Fprintf_lines writer results)"

definition WriteHostsFile :: "bool \<Rightarrow> string \<Rightarrow> HostResult list \<Rightarrow> fs_error option \<times> string option" where
  "WriteHostsFile create_ok currentTime results =
     (if \<not> create_ok then (Some CreateFailed, None)
      else
        let writer = [];
            writer = writer @ ''# Hosts'' @ newline;
            writer = writer @ ''# '' @ label_updated @ '': '' @ currentTime @ newline;
            writer = writer @ ''# '' @ label_project @ '': https://github.com/ineo6/hosts'' @ newline;
            writer = writer @ newline;
            writer = Fprintf_lines writer results
        in (None, Some writer))"

text \<open>One rendered data line, as a closed form of the loop body.\<close>

definition host_line :: "HostResult \<Rightarrow> string" where
  "host_line r =
     IP r @ replicate (30 - RuneCountInString (IP r)) CHR '' '' @ '' '' @ Domain r
     @ (if Ping r \<ge> timeout_ms then ''  # Timeout'' else [])"

section \<open>The library routine sort.Slice\<close>

text \<open>
  \<open>sort.Slice(x, less)\<close> of the Go standard library is not stable, and which of several
  equal elements comes first depends on its algorithm: pattern-defeating quicksort
  (\<open>pdqsort_func\<close> in \<open>sort/zsortfunc.go\<close>), rendered here function by function. The
  slice is a list, \<open>data.Less(i, j)\<close> is \<open>lt (data ! i) (data ! j)\<close> for the element
  comparison \<open>lt\<close> of the closure, and \<open>data.Swap(i, j)\<close> is \<open>Swap data i j\<close>.
\<close>

definition Swap :: "'a list \<Rightarrow> nat \<Rightarrow> nat \<Rightarrow> 'a list" where
  "Swap data i j = data[i := data ! j, j := data ! i]"

function insertion_inner :: "('a \<Rightarrow> 'a \<Rightarrow> bool) \<Rightarrow> 'a list \<Rightarrow> nat \<Rightarrow> nat \<Rightarrow> 'a list" where
  "insertion_inner lt data a j =
     (if j > a \<and> lt (data ! j) (data ! (j - 1))
      then insertion_inner lt (Swap data j (j - 1)) a (j - 1)
      else data)"
  by pat_completeness auto
termination
  by (relation "measure (\<lambda>(lt, data, a, j). j)") auto

declare insertion_inner.simps [simp del]

function insertion_outer :: "('a \<Rightarrow> 'a \<Rightarrow> bool) \<Rightarrow> 'a list \<Rightarrow> nat \<Rightarrow> nat \<Rightarrow> nat \<Rightarrow> 'a list" where
  "insertion_outer lt data a b i =
     (if i < b then insertion_outer lt (insertion_inner lt data a i) a b (i + 1) else data)"
  by pat_completeness auto
termination
  by (relation "measure (\<lambda>(lt, data, a, b, i). b - i)") auto

declare insertion_outer.simps [simp del]

definition insertionSort_func :: "('a \<Rightarrow> 'a \<Rightarrow> bool) \<Rightarrow> 'a list \<Rightarrow> nat \<Rightarrow> nat \<Rightarrow> 'a list" where
  "insertionSort_func lt data a b = insertion_outer lt data a b (a + 1)"

function siftDown_func :: "('a \<Rightarrow> 'a \<Rightarrow> bool) \<Rightarrow> 'a list \<Rightarrow> nat \<Rightarrow> nat \<Rightarrow> nat \<Rightarrow> 'a list" where
  "siftDown_func lt data rt hi first =
     (let child = 2 * rt + 1 in
      if child \<ge> hi then data
      else
        let child = (if child + 1 < hi \<and> lt (data ! (first + child)) (data ! (first + child + 1))
                     then child + 1 else child)
        in if \<not> lt (data ! (first + rt)) (data ! (first + child)) then data
           else siftDown_func lt (Swap data (first + rt) (first + child)) child hi first)"
  by pat_completeness auto
termination
  by (relation "measure (\<lambda>(lt, data, rt, hi, first). hi - rt)") (auto simp: Let_def)

declare siftDown_func.simps [simp del]

fun heapify_loop :: "('a \<Rightarrow> 'a \<Rightarrow> bool) \<Rightarrow> 'a list \<Rightarrow> nat \<Rightarrow> nat \<Rightarrow> nat \<Rightarrow> 'a list" where
  "heapify_loop lt data hi first 0 = siftDown_func lt data 0 hi first"
| "heapify_loop lt data hi first (Suc i) =
     heapify_loop lt (siftDown_func lt data (Suc i) hi first) hi first i"

fun pop_loop :: "('a \<Rightarrow> 'a \<Rightarrow> bool) \<Rightarrow> 'a list \<Rightarrow> nat \<Rightarrow> nat \<Rightarrow> 'a list" where
  "pop_loop lt data first 0 = data"
| "pop_loop lt data first (Suc i) =
     pop_loop lt (siftDown_func lt (Swap data first (first + i)) 0 i first) first i"

definition heapSort_func :: "('a \<Rightarrow> 'a \<Rightarrow> bool) \<Rightarrow> 'a list \<Rightarrow> nat \<Rightarrow> nat \<Rightarrow> 'a list" where
  "heapSort_func lt data a b =
     (let first = a; hi = b - a;
          data = heapify_loop lt data hi first ((hi - 1) div 2)
      in pop_loop lt data first hi)"

function scan_up :: "('a \<Rightarrow> 'a \<Rightarrow> bool) \<Rightarrow> 'a list \<Rightarrow> nat \<Rightarrow> nat \<Rightarrow> nat \<Rightarrow> nat" where
  "scan_up lt data a i j =
     (if i \<le> j \<and> lt (data ! i) (data ! a) then scan_up lt data a (i + 1) j else i)"
  by pat_completeness auto
termination
  by (relation "measure (\<lambda>(lt, data, a, i, j). Suc j - i)") auto

declare scan_up.simps [simp del]

function scan_down :: "('a \<Rightarrow> 'a \<Rightarrow> bool) \<Rightarrow> 'a list \<Rightarrow> nat \<Rightarrow> nat \<Rightarrow> nat \<Rightarrow> nat" where
  "scan_down lt data a i j =
     (if i \<le> j \<and> 0 < j \<and> \<not> lt (data ! j) (data ! a) then scan_down lt data a i (j - 1) else j)"
  by pat_completeness auto
termination
  by (relation "measure (\<lambda>(lt, data, a, i, j). j)") auto

declare scan_down.simps [simp del]

lemma scan_up_ge: "i \<le> scan_up lt data a i j"
  by (induction lt data a i j rule: scan_up.induct) (subst scan_up.simps, auto)

lemma scan_up_le: "i \<le> Suc j \<Longrightarrow> scan_up lt data a i j \<le> Suc j"
  by (induction lt data a i j rule: scan_up.induct) (subst scan_up.simps, auto)

lemma scan_down_le: "scan_down lt data a i j \<le> j"
  by (induction lt data a i j rule: scan_down.induct) (subst scan_down.simps, auto)

lemma scan_down_ge: "i \<le> Suc j \<Longrightarrow> i \<le> Suc (scan_down lt data a i j)"
  by (induction lt data a i j rule: scan_down.induct) (subst scan_down.simps, auto)

function partition_loop :: "('a \<Rightarrow> 'a \<Rightarrow> bool) \<Rightarrow> 'a list \<Rightarrow> nat \<Rightarrow> nat \<Rightarrow> nat \<Rightarrow> nat \<times> bool \<times> 'a list" where
  "partition_loop lt data a i j =
     (let i = scan_up lt data a i j;
          j = scan_down lt data a i j
      in if i > j then (j, False, Swap data j a)
         else partition_loop lt (Swap data i j) a (i + 1) (j - 1))"
  by pat_completeness auto
termination
proof (relation "measure (\<lambda>(lt, data, a, i, j). Suc j - i)", goal_cases)
  case 1
  then show ?case by simp
next
  case (2 lt data a i j i' j')
  have "i \<le> i'" "j' \<le> j" using 2 scan_up_ge scan_down_le by auto
  then show ?case using 2 by auto
qed

declare partition_loop.simps [simp del]

definition partition_func :: "('a \<Rightarrow> 'a \<Rightarrow> bool) \<Rightarrow> 'a list \<Rightarrow> nat \<Rightarrow> nat \<Rightarrow> nat \<Rightarrow> nat \<times> bool \<times> 'a list" where
  "partition_func lt data a b pivot =
     (let data = Swap data a pivot;
          i = a + 1; j = b - 1;
          i = scan_up lt data a i j;
          j = scan_down lt data a i j
      in if i > j then (j, True, Swap data j a)
         else let data = Swap data i j; i = i + 1; j = j - 1
              in partition_loop lt data a i j)"

function scan_up_eq :: "('a \<Rightarrow> 'a \<Rightarrow> bool) \<Rightarrow> 'a list \<Rightarrow> nat \<Rightarrow> nat \<Rightarrow> nat \<Rightarrow> nat" where
  "scan_up_eq lt data a i j =
     (if i \<le> j \<and> \<not> lt (data ! a) (data ! i) then scan_up_eq lt data a (i + 1) j else i)"
  by pat_completeness auto
termination
  by (relation "measure (\<lambda>(lt, data, a, i, j). Suc j - i)") auto

declare scan_up_eq.simps [simp del]

function scan_down_eq :: "('a \<Rightarrow> 'a \<Rightarrow> bool) \<Rightarrow> 'a list \<Rightarrow> nat \<Rightarrow> nat \<Rightarrow> nat \<Rightarrow> nat" where
  "scan_down_eq lt data a i j =
     (if i \<le> j \<and> 0 < j \<and> lt (data ! a) (data ! j) then scan_down_eq lt data a i (j - 1) else j)"
  by pat_completeness auto
termination
  by (relation "measure (\<lambda>(lt, data, a, i, j). j)") auto

declare scan_down_eq.simps [simp del]

lemma scan_up_eq_ge: "i \<le> scan_up_eq lt data a i j"
  by (induction lt data a i j rule: scan_up_eq.induct) (subst scan_up_eq.simps, auto)

lemma scan_down_eq_le: "scan_down_eq lt data a i j \<le> j"
  by (induction lt data a i j rule: scan_down_eq.induct) (subst scan_down_eq.simps, auto)

function partitionEqual_loop :: "('a \<Rightarrow> 'a \<Rightarrow> bool) \<Rightarrow> 'a list \<Rightarrow> nat \<Rightarrow> nat \<Rightarrow> nat \<Rightarrow> nat \<times> 'a list" where
  "partitionEqual_loop lt data a i j =
     (let i = scan_up_eq lt data a i j;
          j = scan_down_eq lt data a i j
      in if i > j then (i, data)
         else partitionEqual_loop lt (Swap data i j) a (i + 1) (j - 1))"
  by pat_completeness auto
termination
proof (relation "measure (\<lambda>(lt, data, a, i, j). Suc j - i)", goal_cases)
  case 1
  then show ?case by simp
next
  case (2 lt data a i j i' j')
  have "i \<le> i'" "j' \<le> j" using 2 scan_up_eq_ge scan_down_eq_le by auto
  then show ?case using 2 by auto
qed

declare partitionEqual_loop.simps [simp del]

definition partitionEqual_func :: "('a \<Rightarrow> 'a \<Rightarrow> bool) \<Rightarrow> 'a list \<Rightarrow> nat \<Rightarrow> nat \<Rightarrow> nat \<Rightarrow> nat \<times> 'a list" where
  "partitionEqual_func lt data a b pivot =
     (let data = Swap data a pivot; i = a + 1; j = b - 1
      in partitionEqual_loop lt data a i j)"


function scan_sorted :: "('a \<Rightarrow> 'a \<Rightarrow> bool) \<Rightarrow> 'a list \<Rightarrow> nat \<Rightarrow> nat \<Rightarrow> nat" where
  "scan_sorted lt data i b =
     (if i < b \<and> \<not> lt (data ! i) (data ! (i - 1)) then scan_sorted lt data (i + 1) b else i)"
  by pat_completeness auto
termination
  by (relation "measure (\<lambda>(lt, data, i, b). b - i)") auto

declare scan_sorted.simps [simp del]

function shift_left :: "('a \<Rightarrow> 'a \<Rightarrow> bool) \<Rightarrow> 'a list \<Rightarrow> nat \<Rightarrow> 'a list" where
  "shift_left lt data j =
     (if j \<ge> 1 then
        (if \<not> lt (data ! j) (data ! (j - 1)) then data
         else shift_left lt (Swap data j (j - 1)) (j - 1))
      else data)"
  by pat_completeness auto
termination
  by (relation "measure (\<lambda>(lt, data, j). j)") auto

declare shift_left.simps [simp del]

function shift_right :: "('a \<Rightarrow> 'a \<Rightarrow> bool) \<Rightarrow> 'a list \<Rightarrow> nat \<Rightarrow> nat \<Rightarrow> 'a list" where
  "shift_right lt data j b =
     (if j < b then
        (if \<not> lt (data ! j) (data ! (j - 1)) then data
         else shift_right lt (Swap data j (j - 1)) (j + 1) b)
      else data)"
  by pat_completeness auto
termination
  by (relation "measure (\<lambda>(lt, data, j, b). b - j)") auto

declare shift_right.simps [simp del]

fun partialInsertionSort_loop ::
  "('a \<Rightarrow> 'a \<Rightarrow> bool) \<Rightarrow> 'a list \<Rightarrow> nat \<Rightarrow> nat \<Rightarrow> nat \<Rightarrow> nat \<Rightarrow> bool \<times> 'a list" where
  "partialInsertionSort_loop lt data a b i 0 = (False, data)"
| "partialInsertionSort_loop lt data a b i (Suc steps) =
     (let i = scan_sorted lt data i b in
      if i = b then (True, data)
      else if b - a < 50 then (False, data)
      else
        let data = Swap data i (i - 1);
            data = (if i - a \<ge> 2 then shift_left lt data (i - 1) else data);
            data = (if b - i \<ge> 2 then shift_right lt data (i + 1) b else data)
        in partialInsertionSort_loop lt data a b i steps)"

definition partialInsertionSort_func :: "('a \<Rightarrow> 'a \<Rightarrow> bool) \<Rightarrow> 'a list \<Rightarrow> nat \<Rightarrow> nat \<Rightarrow> bool \<times> 'a list" where
  "partialInsertionSort_func lt data a b = partialInsertionSort_loop lt data a b (a + 1) 5"

fun bits_Len :: "nat \<Rightarrow> nat" where
  "bits_Len n = (if n = 0 then 0 else Suc (bits_Len (n div 2)))"

declare bits_Len.simps [simp del]

definition xorshift_Next :: "64 word \<Rightarrow> 64 word" where
  "xorshift_Next r =
     (let r = r XOR push_bit 13 r;
          r = r XOR drop_bit 7 r;
          r = r XOR push_bit 17 r
      in r)"

definition nextPowerOfTwo :: "nat \<Rightarrow> 64 word" where
  "nextPowerOfTwo n = push_bit (bits_Len n) 1"

fun breakPatterns_loop :: "'a list \<Rightarrow> nat \<Rightarrow> nat \<Rightarrow> nat \<Rightarrow> 64 word \<Rightarrow> 64 word \<Rightarrow> nat list \<Rightarrow> 'a list" where
  "breakPatterns_loop data a len idx random modulus [] = data"
| "breakPatterns_loop data a len idx random modulus (i # is) =
     (let random = xorshift_Next random;
          other = unat (random AND (modulus - 1));
          other = (if other \<ge> len then other - len else other);
          data = Swap data (idx + i) (a + other)
      in breakPatterns_loop data a len idx random modulus is)"

definition breakPatterns_func :: "'a list \<Rightarrow> nat \<Rightarrow> nat \<Rightarrow> 'a list" where
  "breakPatterns_func data a b =
     (let len = b - a in
      if len \<ge> 8 then
        let random = (word_of_nat len :: 64 word);
            modulus = nextPowerOfTwo len;
            idx = a + (len div 4) * 2 - 1
        in breakPatterns_loop data a len idx random modulus [0, 1, 2]
      else data)"

datatype sortedHint = unknownHint | increasingHint | decreasingHint

definition order2_func :: "('a \<Rightarrow> 'a \<Rightarrow> bool) \<Rightarrow> 'a list \<Rightarrow> nat \<Rightarrow> nat \<Rightarrow> nat \<Rightarrow> nat \<times> nat \<times> nat" where
  "order2_func lt data a b swaps =
     (if lt (data ! b) (data ! a) then (b, a, swaps + 1) else (a, b, swaps))"

definition median_func :: "('a \<Rightarrow> 'a \<Rightarrow> bool) \<Rightarrow> 'a list \<Rightarrow> nat \<Rightarrow> nat \<Rightarrow> nat \<Rightarrow> nat \<Rightarrow> nat \<times> nat" where
  "median_func lt data a b c swaps =
     (case order2_func lt data a b swaps of (a, b, swaps) \<Rightarrow>
      case order2_func lt data b c swaps of (b, c, swaps) \<Rightarrow>
      case order2_func lt data a b swaps of (a, b, swaps) \<Rightarrow> (b, swaps))"

definition medianAdjacent_func :: "('a \<Rightarrow> 'a \<Rightarrow> bool) \<Rightarrow> 'a list \<Rightarrow> nat \<Rightarrow> nat \<Rightarrow> nat \<times> nat" where
  "medianAdjacent_func lt data a swaps = median_func lt data (a - 1) a (a + 1) swaps"

definition choosePivot_func :: "('a \<Rightarrow> 'a \<Rightarrow> bool) \<Rightarrow> 'a list \<Rightarrow> nat \<Rightarrow> nat \<Rightarrow> nat \<times> sortedHint" where
  "choosePivot_func lt data a b =
     (let l = b - a;
          swaps = 0;
          i = a + l div 4 * 1;
          j = a + l div 4 * 2;
          k = a + l div 4 * 3;
          (j, swaps) =
            (if l \<ge> 8 then
               (if l \<ge> 50 then
                  (case medianAdjacent_func lt data i swaps of (i, swaps) \<Rightarrow>
                   case medianAdjacent_func lt data j swaps of (j, swaps) \<Rightarrow>
                   case medianAdjacent_func lt data k swaps of (k, swaps) \<Rightarrow>
                     median_func lt data i j k swaps)
                else median_func lt data i j k swaps)
             else (j, swaps))
      in if swaps = 0 then (j, increasingHint)
         else if swaps = 4 * 3 then (j, decreasingHint)
         else (j, unknownHint))"

function reverseRange_loop :: "'a list \<Rightarrow> nat \<Rightarrow> nat \<Rightarrow> 'a list" where
  "reverseRange_loop data i j =
     (if i < j then reverseRange_loop (Swap data i j) (i + 1) (j - 1) else data)"
  by pat_completeness auto
termination
  by (relation "measure (\<lambda>(data, i, j). j - i)") auto

declare reverseRange_loop.simps [simp del]

definition reverseRange_func :: "'a list \<Rightarrow> nat \<Rightarrow> nat \<Rightarrow> 'a list" where
  "reverseRange_func data a b = reverseRange_loop data a (b - 1)"

lemma scan_up_stop:
  "scan_up lt data a i j \<le> j \<Longrightarrow> \<not> lt (data ! scan_up lt data a i j) (data ! a)"
  by (induction lt data a i j rule: scan_up.induct) (subst (asm) scan_up.simps, subst scan_up.simps, auto)

lemma scan_down_stop:
  "0 < i \<Longrightarrow> i \<le> scan_down lt data a i j
     \<Longrightarrow> lt (data ! scan_down lt data a i j) (data ! a)"
  by (induction lt data a i j rule: scan_down.induct) (subst (asm) (2) scan_down.simps, subst scan_down.simps, auto)

lemma partition_loop_bounds:
  "0 < i \<Longrightarrow> i \<le> Suc j \<Longrightarrow> fst (partition_loop lt data a i j) \<le> j \<and> i \<le> Suc (fst (partition_loop lt data a i j))"
proof (induction lt data a i j rule: partition_loop.induct)
  case (1 lt data a i j)
  let ?i = "scan_up lt data a i j"
  let ?j = "scan_down lt data a ?i j"
  have i: "i \<le> ?i" "?i \<le> Suc j"
    by (rule scan_up_ge, rule scan_up_le[OF 1(3)])
  have j: "?j \<le> j" "?i \<le> Suc ?j"
    by (rule scan_down_le, rule scan_down_ge[OF i(2)])
  show ?case
  proof (cases "?i > ?j")
    case True
    then show ?thesis using i j by (subst (1 2) partition_loop.simps) (auto simp: Let_def)
  next
    case False
    then have le: "?i \<le> ?j" by simp
    have "\<not> lt (data ! ?i) (data ! a)" using scan_up_stop[of lt data a i j] le j by simp
    moreover have "lt (data ! ?j) (data ! a)" using scan_down_stop[of ?i lt data a j] le i 1(2) by simp
    ultimately have "?i \<noteq> ?j" by auto
    with le have "?i + 1 \<le> Suc (?j - 1)" "0 < ?i + 1" by simp_all
    from 1(1)[OF refl refl _ this(2) this(1)] False
    have "fst (partition_loop lt (Swap data ?i ?j) a (?i + 1) (?j - 1)) \<le> ?j - 1
        \<and> ?i + 1 \<le> Suc (fst (partition_loop lt (Swap data ?i ?j) a (?i + 1) (?j - 1)))"
      by simp
    then show ?thesis using i j False by (subst (1 2) partition_loop.simps) (auto simp: Let_def)
  qed
qed

lemma partition_bounds:
  assumes "a < b"
  shows "a \<le> fst (partition_func lt data a b pivot) \<and> fst (partition_func lt data a b pivot) < b"
proof -
  define d where "d = Swap data a pivot"
  define i where "i = scan_up lt d a (a + 1) (b - 1)"
  define j where "j = scan_down lt d a i (b - 1)"
  have ab: "a + 1 \<le> Suc (b - 1)" using assms by simp
  have i: "a + 1 \<le> i" "i \<le> Suc (b - 1)"
    unfolding i_def by (rule scan_up_ge, rule scan_up_le[OF ab])
  have j: "j \<le> b - 1" "i \<le> Suc j"
    unfolding j_def by (rule scan_down_le, rule scan_down_ge[OF i(2)])
  show ?thesis
  proof (cases "i > j")
    case True
    then have "fst (partition_func lt data a b pivot) = j"
      by (simp add: partition_func_def Let_def d_def i_def j_def)
    then show ?thesis using i j True assms by arith
  next
    case False
    then have le: "i \<le> j" by simp
    have "\<not> lt (d ! i) (d ! a)" using scan_up_stop[of lt d a "a + 1" "b - 1"] le j by (simp add: i_def)
    moreover have "lt (d ! j) (d ! a)" using scan_down_stop[of i lt d a "b - 1"] le i by (simp add: j_def)
    ultimately have "i \<noteq> j" by auto
    with le have "0 < i + 1" "i + 1 \<le> Suc (j - 1)" by simp_all
    from partition_loop_bounds[OF this, of lt "Swap d i j" a]
    have r: "fst (partition_loop lt (Swap d i j) a (i + 1) (j - 1)) \<le> j - 1"
      "i + 1 \<le> Suc (fst (partition_loop lt (Swap d i j) a (i + 1) (j - 1)))" by simp_all
    have "fst (partition_func lt data a b pivot) = fst (partition_loop lt (Swap d i j) a (i + 1) (j - 1))"
      using False by (simp add: partition_func_def Let_def d_def i_def j_def)
    then show ?thesis using r i j le assms by arith
  qed
qed

lemma partitionEqual_loop_gt: "i \<le> fst (partitionEqual_loop lt data a i j)"
proof (induction lt data a i j rule: partitionEqual_loop.induct)
  case (1 lt data a i j)
  let ?i = "scan_up_eq lt data a i j"
  let ?j = "scan_down_eq lt data a ?i j"
  have i: "i \<le> ?i" by (rule scan_up_eq_ge)
  show ?case
  proof (cases "?i > ?j")
    case True
    then show ?thesis using i by (subst partitionEqual_loop.simps) (auto simp: Let_def)
  next
    case False
    from 1[OF refl refl] False
    have "?i + 1 \<le> fst (partitionEqual_loop lt (Swap data ?i ?j) a (?i + 1) (?j - 1))"
      by simp
    then show ?thesis using i False by (subst partitionEqual_loop.simps) (auto simp: Let_def)
  qed
qed

lemma partitionEqual_gt: "a < fst (partitionEqual_func lt data a b pivot)"
  using partitionEqual_loop_gt[of "a + 1" lt "Swap data a pivot" a "b - 1"]
  by (simp add: partitionEqual_func_def Let_def)


lemma partition_mid:
  "partition_func lt data a b pivot = (mid, ap, d) \<Longrightarrow> a < b \<Longrightarrow> a \<le> mid \<and> mid < b"
  using partition_bounds[of a b lt data pivot] by simp

lemma partitionEqual_mid:
  "partitionEqual_func lt data a b pivot = (mid, d) \<Longrightarrow> a < mid"
  using partitionEqual_gt[of a lt data b pivot] by simp

function pdqsort_func ::
  "('a \<Rightarrow> 'a \<Rightarrow> bool) \<Rightarrow> 'a list \<Rightarrow> nat \<Rightarrow> nat \<Rightarrow> nat \<Rightarrow> bool \<Rightarrow> bool \<Rightarrow> 'a list" where
  "pdqsort_func lt data a b limit wasBalanced wasPartitioned =
     (if b - a \<le> 12 then insertionSort_func lt data a b
      else if limit = 0 then heapSort_func lt data a b
      else
        case (if \<not> wasBalanced then (breakPatterns_func data a b, limit - 1) else (data, limit))
        of (data, limit) \<Rightarrow>
        case choosePivot_func lt data a b of (pivot, hint) \<Rightarrow>
        case (if hint = decreasingHint
              then (reverseRange_func data a b, (b - 1) - (pivot - a), increasingHint)
              else (data, pivot, hint))
        of (data, pivot, hint) \<Rightarrow>
        case (if wasBalanced \<and> wasPartitioned \<and> hint = increasingHint
              then partialInsertionSort_func lt data a b else (False, data))
        of (isSorted, data) \<Rightarrow>
        if isSorted then data
        else if a > 0 \<and> \<not> lt (data ! (a - 1)) (data ! pivot) then
          (case partitionEqual_func lt data a b pivot of (mid, data) \<Rightarrow>
             pdqsort_func lt data mid b limit wasBalanced wasPartitioned)
        else
          (case partition_func lt data a b pivot of (mid, alreadyPartitioned, data) \<Rightarrow>
             if mid - a < b - mid then
               pdqsort_func lt (pdqsort_func lt data a mid limit True True) (mid + 1) b limit
                 (mid - a \<ge> (b - a) div 8) alreadyPartitioned
             else
               pdqsort_func lt (pdqsort_func lt data (mid + 1) b limit True True) a mid limit
                 (b - mid \<ge> (b - a) div 8) alreadyPartitioned))"
  by pat_completeness auto
termination
proof (relation "measure (\<lambda>(lt, data, a, b, limit, wb, wp). b - a)", goal_cases)
  case 1
  then show ?case by simp
next
  case 2
  then show ?case by (auto dest!: sym[of "(_, _)"] dest: partitionEqual_mid)
next
  case 3
  then show ?case by (auto dest!: sym[of "(_, _)"] dest: partition_mid)
next
  case 4
  then show ?case by (auto dest!: sym[of "(_, _)"] dest: partition_mid)
next
  case 5
  then show ?case by (auto dest!: sym[of "(_, _)"] dest: partition_mid)
next
  case 6
  then show ?case by (auto dest!: sym[of "(_, _)"] dest: partition_mid)
qed

declare pdqsort_func.simps [simp del]

definition sort_Slice :: "('a \<Rightarrow> 'a \<Rightarrow> bool) \<Rightarrow> 'a list \<Rightarrow> 'a list" where
  "sort_Slice lt x = pdqsort_func lt x 0 (length x) (bits_Len (length x)) True True"


section \<open>The environment: network, resolver and address parsing\<close>

text \<open>
  What the program obtains from outside is an input of the model:
  \<^item> \<open>dns_Exchange domain server\<close>: the outcome of \<open>c.Exchange\<close> for the A question, an error
    or the answer section. An A record carries four octets; any other record is \<open>OtherRR\<close>.
  \<^item> \<open>http_Text domain\<close>: \<open>doc.Text()\<close> of the page fetched for the domain, or \<open>None\<close> when
    building the request, the GET or the HTML parse failed.
  \<^item> \<open>NewPinger_ok ip\<close>: whether \<open>ping.NewPinger\<close> resolves the address string.
  \<^item> \<open>pinger_Run ip\<close>: the outcome of \<open>pinger.Run()\<close>: whether it returned an error, and the
    round-trip times in milliseconds that \<open>OnRecv\<close> collected, in arrival order.
  \<^item> \<open>parseIPv6_ok s\<close>: whether the IPv6 branch of \<open>net.ParseIP\<close> accepts \<open>s\<close>.
\<close>

datatype dns_error = ExchangeFailed

datatype rr = A_record "8 word" "8 word" "8 word" "8 word" | OtherRR

record run_outcome =
  run_err :: bool
  replies :: "rat list"

record env =
  dns_Exchange :: "string \<Rightarrow> string \<Rightarrow> dns_error + rr list"
  http_Text :: "string \<Rightarrow> string option"
  NewPinger_ok :: "string \<Rightarrow> bool"
  pinger_Run :: "string \<Rightarrow> run_outcome"
  parseIPv6_ok :: "string \<Rightarrow> bool"

section \<open>getIPFromDNS\<close>

definition digit_char :: "nat \<Rightarrow> char" where
  "digit_char n = char_of (48 + n)"

text \<open>Decimal rendering of an octet and \<open>net.IP.String()\<close> of a four-byte address.\<close>

fun uitoa :: "nat \<Rightarrow> string" where
  "uitoa n = (if n < 10 then [digit_char n] else uitoa (n div 10) @ [digit_char (n mod 10)])"

declare uitoa.simps [simp del]

definition IP_String :: "8 word \<Rightarrow> 8 word \<Rightarrow> 8 word \<Rightarrow> 8 word \<Rightarrow> string" where
  "IP_String a b c d =
     uitoa (unat a) @ ''.'' @ uitoa (unat b) @ ''.'' @ uitoa (unat c) @ ''.'' @ uitoa (unat d)"

text \<open>The inner loop over \<open>r.Answer\<close>: every A record appends its address.\<close>

fun answer_loop :: "string list \<Rightarrow> rr list \<Rightarrow> string list" where
  "answer_loop allIPs [] = allIPs"
| "answer_loop allIPs (A_record a b c d # answer) = answer_loop (allIPs @ [IP_String a b c d]) answer"
| "answer_loop allIPs (OtherRR # answer) = answer_loop allIPs answer"

text \<open>The loop over the resolvers: \<open>continue\<close> on an error, \<open>break\<close> once \<open>allIPs\<close> is not empty.\<close>

fun server_loop :: "(string \<Rightarrow> dns_error + rr list) \<Rightarrow> string list \<Rightarrow> string list \<Rightarrow> string list" where
  "server_loop exchange allIPs [] = allIPs"
| "server_loop exchange allIPs (server # servers) =
     (case exchange server of
        Inl err \<Rightarrow> server_loop exchange allIPs servers
      | Inr answer \<Rightarrow>
          let allIPs = answer_loop allIPs answer
          in if length allIPs > 0 then allIPs else server_loop exchange allIPs servers)"

definition getIPFromDNS :: "env \<Rightarrow> string \<Rightarrow> string list \<times> dns_error option" where
  "getIPFromDNS e domain = (server_loop (dns_Exchange e domain) [] DNSServers, None)"

section \<open>getIPFromWeb\<close>

text \<open>
  \<open>ipRegex.FindAllString(text, -1)\<close> for the expression
  \<^verbatim>\<open>\b(?:[0-9]{1,3}\.){3}[0-9]{1,3}\b\<close>: the successive non-overlapping leftmost matches.
  At a given start the expression matches in one way only: a greedy run of digits can be
  followed by the dot, or by the closing word boundary, only when the whole run of digits
  was taken, so each of its four groups is a full run of one to three digits.
\<close>

definition is_digit :: "char \<Rightarrow> bool" where
  "is_digit c = (CHR ''0'' \<le> c \<and> c \<le> CHR ''9'')"

definition is_word :: "char \<Rightarrow> bool" where
  "is_word c = (is_digit c \<or> (CHR ''a'' \<le> c \<and> c \<le> CHR ''z'') \<or> (CHR ''A'' \<le> c \<and> c \<le> CHR ''Z'')
                \<or> c = CHR ''_'')"

definition match_digits_dot :: "string \<Rightarrow> (string \<times> string) option" where
  "match_digits_dot s =
     (let ds = takeWhile is_digit s; rest = dropWhile is_digit s
      in if 1 \<le> length ds \<and> length ds \<le> 3 \<and> rest \<noteq> [] \<and> hd rest = CHR ''.''
         then Some (ds @ ''.'', tl rest) else None)"

definition match_digits_end :: "string \<Rightarrow> (string \<times> string) option" where
  "match_digits_end s =
     (let ds = takeWhile is_digit s; rest = dropWhile is_digit s
      in if 1 \<le> length ds \<and> length ds \<le> 3 \<and> (rest = [] \<or> \<not> is_word (hd rest))
         then Some (ds, rest) else None)"

definition match_here :: "string \<Rightarrow> (string \<times> string) option" where
  "match_here s =
     (case match_digits_dot s of None \<Rightarrow> None | Some (m1, s1) \<Rightarrow>
      case match_digits_dot s1 of None \<Rightarrow> None | Some (m2, s2) \<Rightarrow>
      case match_digits_dot s2 of None \<Rightarrow> None | Some (m3, s3) \<Rightarrow>
      case match_digits_end s3 of None \<Rightarrow> None | Some (m4, s4) \<Rightarrow>
        Some (m1 @ m2 @ m3 @ m4, s4))"

lemma match_digits_dot_shorter: "match_digits_dot s = Some (m, rest) \<Longrightarrow> length rest < length s"
proof -
  assume a: "match_digits_dot s = Some (m, rest)"
  have "length (dropWhile is_digit s) \<le> length s" by (rule length_dropWhile_le)
  with a show ?thesis
    by (cases "dropWhile is_digit s") (auto simp: match_digits_dot_def Let_def split: if_splits)
qed

lemma match_digits_end_shorter: "match_digits_end s = Some (m, rest) \<Longrightarrow> length rest \<le> length s"
  using length_dropWhile_le[of is_digit s]
  by (auto simp: match_digits_end_def Let_def split: if_splits)

lemma match_here_shorter: "match_here s = Some (m, rest) \<Longrightarrow> length rest < length s"
  by (auto simp: match_here_def split: option.splits
      dest!: match_digits_dot_shorter match_digits_end_shorter)

text \<open>
  The scan: \<open>prev_word\<close> tells whether the byte before the current position is a word
  character, which decides the opening \<open>\b\<close> in front of a digit.
\<close>

function FindAllString_from :: "bool \<Rightarrow> string \<Rightarrow> string list" where
  "FindAllString_from prev_word [] = []"
| "FindAllString_from prev_word (c # cs) =
     (if prev_word then FindAllString_from (is_word c) cs
      else case match_here (c # cs) of
             Some (m, rest) \<Rightarrow> m # FindAllString_from True rest
           | None \<Rightarrow> FindAllString_from (is_word c) cs)"
  by pat_completeness auto
termination
  by (relation "measure (\<lambda>(p, s). length s)") (auto dest: match_here_shorter)

definition FindAllString :: "string \<Rightarrow> string list" where
  "FindAllString text = FindAllString_from False text"

datatype http_error = FetchFailed

definition getIPFromWeb :: "env \<Rightarrow> string \<Rightarrow> string list \<times> http_error option" where
  "getIPFromWeb e domain =
     (case http_Text e domain of
        None \<Rightarrow> ([], Some FetchFailed)
      | Some text \<Rightarrow> (FindAllString text, None))"

section \<open>net.ParseIP\<close>

text \<open>
  \<open>net.ParseIP\<close> looks for the first dot, colon or percent sign of the string: a dot
  sends it to the IPv4 parser, a colon to the IPv6 parser, and a string with neither is
  rejected. The IPv4 parser is rendered here: four fields of decimal digits separated
  by dots, none above 255 and none with a leading zero.
\<close>

fun parseIPv4_loop :: "nat \<Rightarrow> nat \<Rightarrow> nat \<Rightarrow> char option \<Rightarrow> string \<Rightarrow> bool" where
  "parseIPv4_loop val pos digLen prev [] = (\<not> pos < 3)"
| "parseIPv4_loop val pos digLen prev (c # cs) =
     (if is_digit c then
        (if digLen = 1 \<and> val = 0 then False
         else let val = val * 10 + (of_char c - 48)
              in if val > 255 then False
                 else parseIPv4_loop val pos (digLen + 1) (Some c) cs)
      else if c = CHR ''.'' then
        (if prev = None \<or> cs = [] \<or> prev = Some CHR ''.'' then False
         else if pos = 3 then False
         else parseIPv4_loop 0 (pos + 1) 0 (Some c) cs)
      else False)"

definition parseIPv4 :: "string \<Rightarrow> bool" where
  "parseIPv4 s = parseIPv4_loop 0 0 0 None s"

fun ParseIP_scan :: "env \<Rightarrow> string \<Rightarrow> string \<Rightarrow> bool" where
  "ParseIP_scan e s [] = False"
| "ParseIP_scan e s (c # cs) =
     (if c = CHR ''.'' then parseIPv4 s
      else if c = CHR '':'' then parseIPv6_ok e s
      else if c = CHR ''%'' then False
      else ParseIP_scan e s cs)"

text \<open>\<open>ParseIP e s\<close> holds when \<open>net.ParseIP(s) != nil\<close>.\<close>

definition ParseIP :: "env \<Rightarrow> string \<Rightarrow> bool" where
  "ParseIP e s = ParseIP_scan e s s"

section \<open>pingCached\<close>

text \<open>
  \<open>probe_and_store\<close> is the part of pingCached after the cache lookup (the lookup is
  made under the read lock, which is released before the probe starts). The results are
  the value returned, the cache afterwards and the number of calls of \<open>pinger.Run()\<close>.
  \<open>sort.Float64s\<close> orders numbers, none of them NaN, so its result is the one ascending
  arrangement of the samples: \<^const>\<open>sort\<close>.
\<close>

definition probe_and_store :: "env \<Rightarrow> (string \<rightharpoonup> rat) \<Rightarrow> string \<Rightarrow> rat \<times> (string \<rightharpoonup> rat) \<times> nat" where
  "probe_and_store e PingCache ip =
     (if \<not> NewPinger_ok e ip then (timeout_ms, PingCache, 0)
      else
        let pingTimes = replies (pinger_Run e ip) in
        if run_err (pinger_Run e ip) \<or> length pingTimes = 0
        then (timeout_ms, PingCache(ip \<mapsto> timeout_ms), 1)
        else
          let pingTimes = sort pingTimes;
              median = pingTimes ! (length pingTimes div 2)
          in (median, PingCache(ip \<mapsto> median), 1))"

definition pingCached :: "env \<Rightarrow> (string \<rightharpoonup> rat) \<Rightarrow> string \<Rightarrow> rat \<times> (string \<rightharpoonup> rat) \<times> nat" where
  "pingCached e PingCache ip =
     (case PingCache ip of
        Some result \<Rightarrow> (result, PingCache, 0)
      | None \<Rightarrow> probe_and_store e PingCache ip)"

text \<open>
  Goroutines calling pingCached for one address at the same time: the lookup and the
  store are each atomic (they hold the mutex), the probe between them is not. A call is
  \<open>Called\<close> before its lookup, \<open>Missed\<close> after a lookup that found nothing, and
  \<open>Returned r\<close> at its end. \<open>step ip e i w\<close> lets call \<open>i\<close> take its next action while the
  outside world is \<open>e\<close>; a schedule is the list of the actions taken.
\<close>

datatype call_state = Called | Missed | Returned rat

record world =
  cache :: "string \<rightharpoonup> rat"
  calls :: "call_state list"
  probes :: nat

definition step :: "string \<Rightarrow> env \<Rightarrow> nat \<Rightarrow> world \<Rightarrow> world" where
  "step ip e i w =
     (if i \<ge> length (calls w) then w
      else case calls w ! i of
        Called \<Rightarrow>
          (case cache w ip of
             Some result \<Rightarrow> w\<lparr>calls := (calls w)[i := Returned result]\<rparr>
           | None \<Rightarrow> w\<lparr>calls := (calls w)[i := Missed]\<rparr>)
      | Missed \<Rightarrow>
          (case probe_and_store e (cache w) ip of
             (r, c, n) \<Rightarrow> \<lparr>cache = c, calls = (calls w)[i := Returned r], probes = probes w + n\<rparr>)
      | Returned r \<Rightarrow> w)"

fun run_schedule :: "string \<Rightarrow> (env \<times> nat) list \<Rightarrow> world \<Rightarrow> world" where
  "run_schedule ip [] w = w"
| "run_schedule ip ((e, i) # sched) w = run_schedule ip sched (step ip e i w)"

text \<open>The median the specification speaks of.\<close>

definition median_spec :: "rat list \<Rightarrow> rat" where
  "median_spec xs =
     (let s = sort xs; n = length xs
      in if odd n then s ! (n div 2) else (s ! (n div 2 - 1) + s ! (n div 2)) / 2)"

section \<open>selectBestIP, getBestIP, processHost\<close>

record ipPing =
  ipPing_IP :: string
  ipPing_Ping :: rat

fun ping_loop :: "env \<Rightarrow> (string \<rightharpoonup> rat) \<Rightarrow> ipPing list \<Rightarrow> string list \<Rightarrow> ipPing list \<times> (string \<rightharpoonup> rat)" where
  "ping_loop e PingCache results [] = (results, PingCache)"
| "ping_loop e PingCache results (ip # ipList) =
     (case pingCached e PingCache ip of
        (pingTime, PingCache, n) \<Rightarrow>
          ping_loop e PingCache (results @ [\<lparr>ipPing_IP = ip, ipPing_Ping = pingTime\<rparr>]) ipList)"

definition selectBestIP :: "env \<Rightarrow> (string \<rightharpoonup> rat) \<Rightarrow> string list \<Rightarrow> string \<times> (string \<rightharpoonup> rat)" where
  "selectBestIP e PingCache ipList =
     (if length ipList = 0 then ([], PingCache)
      else
        case ping_loop e PingCache [] ipList of
          (results, PingCache) \<Rightarrow>
            let results = sort_Slice (\<lambda>x y. ipPing_Ping x < ipPing_Ping y) results;
                bestIP = ipPing_IP (results ! 0)
            in (bestIP, PingCache))"

text \<open>The error of getBestIP; its message is the UTF-8 text of the source.\<close>

datatype lookup_error = NoValidIP

definition error_text :: "lookup_error \<Rightarrow> string" where
  "error_text err =
     [CHR 0xE6, CHR 0x9C, CHR 0xAA, CHR 0xE6, CHR 0x89, CHR 0xBE, CHR 0xE5, CHR 0x88, CHR 0xB0,
      CHR 0xE6, CHR 0x9C, CHR 0x89, CHR 0xE6, CHR 0x95, CHR 0x88, CHR ''I'', CHR ''P'',
      CHR 0xE5, CHR 0x9C, CHR 0xB0, CHR 0xE5, CHR 0x9D, CHR 0x80]"

text \<open>The loop that fills \<open>ipSet\<close>, a map to \<open>true\<close> used as a set.\<close>

fun ipSet_loop :: "env \<Rightarrow> string set \<Rightarrow> string list \<Rightarrow> string set" where
  "ipSet_loop e ipSet [] = ipSet"
| "ipSet_loop e ipSet (ip # ips) =
     (let skip = (ip \<in> set DiscardList)
      in if \<not> skip \<and> ParseIP e ip then ipSet_loop e (insert ip ipSet) ips
         else ipSet_loop e ipSet ips)"

text \<open>
  \<open>sort.Strings\<close> of the keys of \<open>ipSet\<close>: the keys are distinct and Go compares strings
  byte by byte, so the result is \<^const>\<open>sorted_list_of_set\<close> for the lexicographic order.
\<close>

definition getBestIP :: "env \<Rightarrow> (string \<rightharpoonup> rat) \<Rightarrow> string \<Rightarrow> (lookup_error + string) \<times> (string \<rightharpoonup> rat)" where
  "getBestIP e PingCache domain =
     (let webIPs = fst (getIPFromWeb e domain);
          dnsIPs = fst (getIPFromDNS e domain);
          ipSet = ipSet_loop e {} (webIPs @ dnsIPs)
      in if ipSet = {} then (Inl NoValidIP, PingCache)
         else
           let ipList = sorted_list_of_set ipSet
           in case selectBestIP e PingCache ipList of
                (bestIP, PingCache) \<Rightarrow> (Inr bestIP, PingCache))"

definition processHost :: "env \<Rightarrow> (string \<rightharpoonup> rat) \<Rightarrow> string \<Rightarrow> HostResult \<times> (string \<rightharpoonup> rat)" where
  "processHost e PingCache domain =
     (case getBestIP e PingCache domain of
        (Inl err, PingCache) \<Rightarrow>
          (\<lparr>Domain = domain, IP = ''# IP Address Not Found'', Ping = 0, Error = error_text err\<rparr>,
           PingCache)
      | (Inr ip, PingCache) \<Rightarrow>
          (case pingCached e PingCache ip of
             (p, PingCache, n) \<Rightarrow>
               (\<lparr>Domain = domain, IP = ip, Ping = p, Error = []\<rparr>, PingCache)))"

section \<open>readDomainFile\<close>

text \<open>
  \<open>strings.TrimSpace\<close> removes from both ends every rune for which \<open>unicode.IsSpace\<close>
  holds. Only a well-formed encoding decodes to such a rune, so the function strips the
  byte sequences below: the six ASCII spaces, U+0085, U+00A0, U+1680, U+2000 to U+200A,
  U+2028, U+2029, U+202F, U+205F and U+3000.
\<close>

definition space_seqs :: "string list" where
  "space_seqs =
     [[CHR 0x09], [CHR 0x0A], [CHR 0x0B], [CHR 0x0C], [CHR 0x0D], [CHR 0x20],
      [CHR 0xC2, CHR 0x85], [CHR 0xC2, CHR 0xA0], [CHR 0xE1, CHR 0x9A, CHR 0x80],
      [CHR 0xE2, CHR 0x80, CHR 0x80], [CHR 0xE2, CHR 0x80, CHR 0x81], [CHR 0xE2, CHR 0x80, CHR 0x82],
      [CHR 0xE2, CHR 0x80, CHR 0x83], [CHR 0xE2, CHR 0x80, CHR 0x84], [CHR 0xE2, CHR 0x80, CHR 0x85],
      [CHR 0xE2, CHR 0x80, CHR 0x86], [CHR 0xE2, CHR 0x80, CHR 0x87], [CHR 0xE2, CHR 0x80, CHR 0x88],
      [CHR 0xE2, CHR 0x80, CHR 0x89], [CHR 0xE2, CHR 0x80, CHR 0x8A], [CHR 0xE2, CHR 0x80, CHR 0xA8],
      [CHR 0xE2, CHR 0x80, CHR 0xA9], [CHR 0xE2, CHR 0x80, CHR 0xAF], [CHR 0xE2, CHR 0x81, CHR 0x9F],
      [CHR 0xE3, CHR 0x80, CHR 0x80]]"

definition leading_space :: "string list \<Rightarrow> string \<Rightarrow> nat" where
  "leading_space seqs s =
     (case find (\<lambda>p. p \<noteq> [] \<and> take (length p) s = p) seqs of
        None \<Rightarrow> 0
      | Some p \<Rightarrow> length p)"

lemma leading_space_le: "leading_space seqs s \<le> length s"
proof (cases "find (\<lambda>p. p \<noteq> [] \<and> take (length p) s = p) seqs")
  case None
  then show ?thesis by (simp add: leading_space_def)
next
  case (Some p)
  then have "take (length p) s = p" by (auto simp: find_Some_iff)
  then have "length (take (length p) s) = length p" by simp
  then have "length p \<le> length s" by (simp add: min_def split: if_splits)
  with Some show ?thesis by (simp add: leading_space_def)
qed

function strip_spaces :: "string list \<Rightarrow> string \<Rightarrow> string" where
  "strip_spaces seqs s =
     (if leading_space seqs s = 0 then s else strip_spaces seqs (drop (leading_space seqs s) s))"
  by pat_completeness auto
termination
proof (relation "measure (\<lambda>(seqs, s). length s)", goal_cases)
  case 1
  then show ?case by simp
next
  case (2 seqs s)
  then show ?case using leading_space_le[of seqs s] by auto
qed

declare strip_spaces.simps [simp del]

definition TrimSpace :: "string \<Rightarrow> string" where
  "TrimSpace s = rev (strip_spaces (map rev space_seqs) (rev (strip_spaces space_seqs s)))"

text \<open>
  The file as the program sees it: \<open>os.Open\<close> fails, or the scanner delivers lines one
  by one until the end of the file or until it stops with an error (\<open>scanner.Err()\<close>).
\<close>

datatype file_outcome = OpenFailed | Opened "string list" bool

datatype file_error = OpenError | ScanError

fun domain_loop :: "string list \<Rightarrow> string list \<Rightarrow> string list" where
  "domain_loop domains [] = domains"
| "domain_loop domains (text # rest) =
     (let line = TrimSpace text in
      if line = [] \<or> take 1 line = ''#'' then domain_loop domains rest
      else
        let line = (if CHR ''#'' \<in> set line
                    then TrimSpace (takeWhile (\<lambda>c. c \<noteq> CHR ''#'') line) else line)
        in if line \<noteq> [] then domain_loop (domains @ [line]) rest
           else domain_loop domains rest)"

definition readDomainFile :: "file_outcome \<Rightarrow> string list \<times> file_error option" where
  "readDomainFile f =
     (case f of
        OpenFailed \<Rightarrow> ([], Some OpenError)
      | Opened lines scan_failed \<Rightarrow>
          (domain_loop [] lines, if scan_failed then Some ScanError else None))"

section \<open>DetectHosts\<close>

text \<open>
  The loop that builds \<open>domainOrder\<close>: a later occurrence of a domain overwrites the
  index of an earlier one. Reading a missing key of a Go map gives 0.
\<close>

fun domainOrder_loop :: "(string \<rightharpoonup> nat) \<Rightarrow> nat \<Rightarrow> string list \<Rightarrow> (string \<rightharpoonup> nat)" where
  "domainOrder_loop domainOrder i [] = domainOrder"
| "domainOrder_loop domainOrder i (domain # domains) =
     domainOrder_loop (domainOrder(domain \<mapsto> i)) (i + 1) domains"

definition map_get :: "(string \<rightharpoonup> nat) \<Rightarrow> string \<Rightarrow> nat" where
  "map_get m k = (case m k of None \<Rightarrow> 0 | Some v \<Rightarrow> v)"

text \<open>Lines 401 to 409: the results, in the order the channel delivered them, are sorted.\<close>

definition order_results :: "string list \<Rightarrow> HostResult list \<Rightarrow> HostResult list" where
  "order_results domains results =
     (let domainOrder = domainOrder_loop Map.empty 0 domains
      in sort_Slice (\<lambda>x y. map_get domainOrder (Domain x) < map_get domainOrder (Domain y)) results)"

text \<open>
  The per-domain tasks, run one after the other in the order \<open>tasks\<close> in which they
  deliver their results; each result is appended to \<open>results\<close> as the collecting loop
  receives it.
\<close>

fun run_tasks :: "env \<Rightarrow> (string \<rightharpoonup> rat) \<Rightarrow> HostResult list \<Rightarrow> string list \<Rightarrow> HostResult list \<times> (string \<rightharpoonup> rat)" where
  "run_tasks e PingCache results [] = (results, PingCache)"
| "run_tasks e PingCache results (d # tasks) =
     (case processHost e PingCache d of
        (result, PingCache) \<Rightarrow> run_tasks e PingCache (results @ [result]) tasks)"

datatype detect_error = ReadFailed file_error | EmptyDomainFile

text \<open>
  DetectHosts. \<open>arrival\<close> lists the positions of the domains in the order in which their
  tasks deliver. The results are the value returned, the cache afterwards and the
  number of per-domain tasks started; every DNS query, HTTP request and echo probe of
  the program is made inside such a task.
\<close>

definition DetectHosts ::
  "env \<Rightarrow> (string \<rightharpoonup> rat) \<Rightarrow> file_outcome \<Rightarrow> nat list
     \<Rightarrow> (detect_error + HostResult list) \<times> (string \<rightharpoonup> rat) \<times> nat" where
  "DetectHosts e PingCache f arrival =
     (case readDomainFile f of
        (domains, Some err) \<Rightarrow> (Inl (ReadFailed err), PingCache, 0)
      | (domains, None) \<Rightarrow>
          if length domains = 0 then (Inl EmptyDomainFile, PingCache, 0)
          else
            case run_tasks e PingCache [] (map (\<lambda>i. domains ! i) arrival) of
              (results, PingCache) \<Rightarrow>
                (Inr (order_results domains results), PingCache, length domains))"

section \<open>The semaphore of DetectHosts\<close>

text \<open>
  Each goroutine sends on the channel \<open>semaphore\<close>, of capacity MaxConcurrent, runs
  processHost and receives from the channel. A task is \<open>Pending\<close> until its send has
  gone through, \<open>Active\<close> until its receive, and \<open>Finished\<close> after. \<open>sem\<close> is the number of
  values in the channel: a send on a full channel blocks, so \<open>acquire\<close> is enabled only
  below the capacity.
\<close>

datatype phase = Pending | Active | Finished

record pool =
  sem :: nat
  phases :: "phase list"

definition acquire :: "nat \<Rightarrow> pool \<Rightarrow> pool option" where
  "acquire i p =
     (if i < length (phases p) \<and> phases p ! i = Pending \<and> sem p < MaxConcurrent
      then Some \<lparr>sem = sem p + 1, phases = (phases p)[i := Active]\<rparr>
      else None)"

definition release :: "nat \<Rightarrow> pool \<Rightarrow> pool option" where
  "release i p =
     (if i < length (phases p) \<and> phases p ! i = Active \<and> sem p > 0
      then Some \<lparr>sem = sem p - 1, phases = (phases p)[i := Finished]\<rparr>
      else None)"

definition start_pool :: "nat \<Rightarrow> pool" where
  "start_pool n = \<lparr>sem = 0, phases = replicate n Pending\<rparr>"

inductive reachable :: "nat \<Rightarrow> pool \<Rightarrow> bool" for n where
  start: "reachable n (start_pool n)"
| acquired: "reachable n p \<Longrightarrow> acquire i p = Some p' \<Longrightarrow> reachable n p'"
| released: "reachable n p \<Longrightarrow> release i p = Some p' \<Longrightarrow> reachable n p'"

definition active_count :: "pool \<Rightarrow> nat" where
  "active_count p = length (filter (\<lambda>ph. ph = Active) (phases p))"

section \<open>Notions used to state what sort.Slice achieves\<close>

text \<open>
  \<open>perm_on a b xs ys\<close>: \<open>ys\<close> rearranges \<open>xs\<close> and agrees with it outside the positions
  \<open>a\<close> to \<open>b - 1\<close>. \<open>sorted_on key a b xs\<close>: these positions are in ascending order of
  \<open>key\<close>. The others are the invariants of the loops of the library routine.
\<close>

definition perm_on :: "nat \<Rightarrow> nat \<Rightarrow> 'a list \<Rightarrow> 'a list \<Rightarrow> bool" where
  "perm_on a b xs ys =
     (length ys = length xs \<and> mset ys = mset xs
      \<and> (\<forall>i. i < length xs \<and> (i < a \<or> b \<le> i) \<longrightarrow> ys ! i = xs ! i))"

definition sorted_on :: "('a \<Rightarrow> 'k::linorder) \<Rightarrow> nat \<Rightarrow> nat \<Rightarrow> 'a list \<Rightarrow> bool" where
  "sorted_on key a b xs = (\<forall>i j. a \<le> i \<and> i < j \<and> j < b \<longrightarrow> key (xs ! i) \<le> key (xs ! j))"

definition sorted_except :: "('a \<Rightarrow> 'k::linorder) \<Rightarrow> nat \<Rightarrow> nat \<Rightarrow> nat \<Rightarrow> 'a list \<Rightarrow> bool" where
  "sorted_except key a j t xs =
     (\<forall>i k. a \<le> i \<and> i < k \<and> k < t \<and> i \<noteq> j \<and> k \<noteq> j \<longrightarrow> key (xs ! i) \<le> key (xs ! k))"

definition heap_from :: "('a \<Rightarrow> 'k::linorder) \<Rightarrow> 'a list \<Rightarrow> nat \<Rightarrow> nat \<Rightarrow> nat \<Rightarrow> bool" where
  "heap_from key data f hi l =
     (\<forall>c. 0 < c \<and> c < hi \<and> l \<le> (c - 1) div 2 \<longrightarrow> key (data ! (f + c)) \<le> key (data ! (f + (c - 1) div 2)))"

definition heap_ok :: "('a \<Rightarrow> 'k::linorder) \<Rightarrow> 'a list \<Rightarrow> nat \<Rightarrow> nat \<Rightarrow> nat \<Rightarrow> nat \<Rightarrow> bool" where
  "heap_ok key data f hi l r =
     ((\<forall>c. 0 < c \<and> c < hi \<and> l \<le> (c - 1) div 2 \<and> (c - 1) div 2 \<noteq> r
          \<longrightarrow> key (data ! (f + c)) \<le> key (data ! (f + (c - 1) div 2)))
      \<and> (0 < r \<and> l \<le> (r - 1) div 2
          \<longrightarrow> (\<forall>c. 0 < c \<and> c < hi \<and> (c - 1) div 2 = r
                 \<longrightarrow> key (data ! (f + c)) \<le> key (data ! (f + (r - 1) div 2)))))"

definition partitioned :: "('a \<Rightarrow> 'k::linorder) \<Rightarrow> nat \<Rightarrow> nat \<Rightarrow> nat \<Rightarrow> 'a list \<Rightarrow> bool" where
  "partitioned key a b mid xs =
     (a \<le> mid \<and> mid < b
      \<and> (\<forall>k. a \<le> k \<and> k < mid \<longrightarrow> key (xs ! k) < key (xs ! mid))
      \<and> (\<forall>k. mid < k \<and> k < b \<longrightarrow> key (xs ! mid) \<le> key (xs ! k)))"

definition partitioned_eq :: "('a \<Rightarrow> 'k::linorder) \<Rightarrow> nat \<Rightarrow> nat \<Rightarrow> nat \<Rightarrow> 'k \<Rightarrow> 'a list \<Rightarrow> bool" where
  "partitioned_eq key a b mid p xs =
     (a < mid \<and> mid \<le> b
      \<and> (\<forall>k. a \<le> k \<and> k < mid \<longrightarrow> key (xs ! k) \<le> p)
      \<and> (\<forall>k. mid \<le> k \<and> k < b \<longrightarrow> p < key (xs ! k)))"

definition lower_bounded :: "('a \<Rightarrow> 'k::linorder) \<Rightarrow> nat \<Rightarrow> nat \<Rightarrow> 'a list \<Rightarrow> bool" where
  "lower_bounded key a b xs = (0 < a \<longrightarrow> (\<forall>k. a \<le> k \<and> k < b \<longrightarrow> key (xs ! (a - 1)) \<le> key (xs ! k)))"

section \<open>Closed forms and concrete inputs used in the proofs\<close>

text \<open>The addresses one resolver contributes: none on an error, else its A records in order.\<close>

definition addresses_of :: "dns_error + rr list \<Rightarrow> string list" where
  "addresses_of r =
     (case r of
        Inl err \<Rightarrow> []
      | Inr answer \<Rightarrow>
          concat (map (\<lambda>x. case x of A_record a b c d \<Rightarrow> [IP_String a b c d] | OtherRR \<Rightarrow> []) answer))"

text \<open>
  An outside world in which every source fails and every probe times out, and its
  variant in which each probe gets the single reply \<open>t\<close>.
\<close>

definition env0 :: env where
  "env0 = \<lparr>dns_Exchange = (\<lambda>domain server. Inl ExchangeFailed), http_Text = (\<lambda>domain. None),
           NewPinger_ok = (\<lambda>ip. True), pinger_Run = (\<lambda>ip. \<lparr>run_err = False, replies = []\<rparr>),
           parseIPv6_ok = (\<lambda>s. False)\<rparr>"

definition env_rtt :: "rat \<Rightarrow> env" where
  "env_rtt t = env0\<lparr>pinger_Run := (\<lambda>ip. \<lparr>run_err = False, replies = [t]\<rparr>)\<rparr>"

text \<open>Several tasks acquiring the semaphore one after the other.\<close>

fun acquire_all :: "nat list \<Rightarrow> pool \<Rightarrow> pool option" where
  "acquire_all [] p = Some p"
| "acquire_all (i # is) p = (case acquire i p of None \<Rightarrow> None | Some p' \<Rightarrow> acquire_all is p')"

text \<open>
  The latencies that one call of selectBestIP works with: for each candidate, in order,
  the value pingCached gave for it.
\<close>

definition latencies :: "env \<Rightarrow> (string \<rightharpoonup> rat) \<Rightarrow> string list \<Rightarrow> rat list" where
  "latencies e PingCache ipList = map ipPing_Ping (fst (ping_loop e PingCache [] ipList))"

text \<open>
  Thirteen candidates in lexicographic order, and an outside world in which three of
  them (the first, the fourth and the seventh) answer in 1 ms and the others in 5 ms.
\<close>

definition ips13 :: "string list" where
  "ips13 = [''10.0.0.10'', ''10.0.0.11'', ''10.0.0.12'', ''10.0.0.13'', ''10.0.0.14'', ''10.0.0.15'',
            ''10.0.0.16'', ''10.0.0.17'', ''10.0.0.18'', ''10.0.0.19'', ''10.0.0.20'', ''10.0.0.21'',
            ''10.0.0.22'']"

definition env13 :: env where
  "env13 = env0\<lparr>pinger_Run := (\<lambda>ip. \<lparr>run_err = False,
      replies = [if ip = ''10.0.0.10'' \<or> ip = ''10.0.0.13'' \<or> ip = ''10.0.0.16'' then 1 else 5]\<rparr>)\<rparr>"

definition probe13 :: "ipPing list" where
  "probe13 = fst (ping_loop env13 Map.empty [] ips13)"

text \<open>
  The candidates of getBestIP before the filter, the set that the filter described in
  terms of the IPv4 parser leaves, and the strings made of digits and dots with at least
  one dot.
\<close>

definition candidates :: "env \<Rightarrow> string \<Rightarrow> string list" where
  "candidates e domain = fst (getIPFromWeb e domain) @ fst (getIPFromDNS e domain)"

definition filtered :: "env \<Rightarrow> string \<Rightarrow> string set" where
  "filtered e domain =
     set (filter (\<lambda>ip. ip \<notin> set DiscardList \<and> parseIPv4 ip) (candidates e domain))"

definition dotted :: "string \<Rightarrow> bool" where
  "dotted s = ((\<forall>c\<in>set s. is_digit c \<or> c = CHR ''.'') \<and> CHR ''.'' \<in> set s)"

text \<open>
  The value that a probe of an address gives in the outside world \<open>e\<close>, once a pinger
  exists: the timeout value after a run that returned an error or brought no reply,
  else the sample at index \<open>n div 2\<close> of the \<open>n\<close> sorted round-trip times.
\<close>

definition probe_value :: "env \<Rightarrow> string \<Rightarrow> rat" where
  "probe_value e ip =
     (if run_err (pinger_Run e ip) \<or> replies (pinger_Run e ip) = [] then timeout_ms
      else sort (replies (pinger_Run e ip)) ! (length (replies (pinger_Run e ip)) div 2))"

text \<open>
  The number of calls of \<open>pinger.Run()\<close> that the loop of selectBestIP makes: the sum of
  the counts of its calls of pingCached, each made on the cache the one before left.
\<close>

fun probe_runs :: "env \<Rightarrow> (string \<rightharpoonup> rat) \<Rightarrow> string list \<Rightarrow> nat" where
  "probe_runs e PingCache [] = 0"
| "probe_runs e PingCache (ip # ipList) =
     (case pingCached e PingCache ip of
        (pingTime, PingCache, n) \<Rightarrow> n + probe_runs e PingCache ipList)"

text \<open>
  An outside world in which the page names four addresses, one of them on the discard
  list, one with a field above 255 and one that no resolver gives, and every resolver
  answers with two A records, one of them not on the page.
\<close>

definition env_example :: env where
  "env_example =
     \<lparr>dns_Exchange = (\<lambda>domain server. Inr [A_record 93 184 216 34, OtherRR, A_record 10 0 0 1]),
      http_Text = (\<lambda>domain. Some ''IP 93.184.216.34 or 203.0.113.7, not 127.0.0.1 or 1.2.3.456''),
      NewPinger_ok = (\<lambda>ip. True),
      pinger_Run = (\<lambda>ip. \<lparr>run_err = False, replies = [if ip = ''10.0.0.1'' then 30 else 20]\<rparr>),
      parseIPv6_ok = (\<lambda>s. False)\<rparr>"

section \<open>sort.Slice sorts\<close>

subsection \<open>Permutations inside a range, and ranges in order\<close>

lemma perm_on_refl [simp]: "perm_on a b xs xs"
  by (simp add: perm_on_def)

lemma perm_on_trans: "perm_on a b xs ys \<Longrightarrow> perm_on a b ys zs \<Longrightarrow> perm_on a b xs zs"
  by (simp add: perm_on_def)

lemma perm_on_widen: "perm_on a' b' xs ys \<Longrightarrow> a \<le> a' \<Longrightarrow> b' \<le> b \<Longrightarrow> perm_on a b xs ys"
  by (auto simp: perm_on_def)

lemma perm_on_length: "perm_on a b xs ys \<Longrightarrow> length ys = length xs"
  by (simp add: perm_on_def)

lemma perm_on_mset: "perm_on a b xs ys \<Longrightarrow> mset ys = mset xs"
  by (simp add: perm_on_def)

lemma perm_on_outside: "perm_on a b xs ys \<Longrightarrow> i < length xs \<Longrightarrow> i < a \<or> b \<le> i \<Longrightarrow> ys ! i = xs ! i"
  by (simp add: perm_on_def)

lemma Swap_length [simp]: "length (Swap xs i j) = length xs"
  by (simp add: Swap_def)

lemma Swap_nth:
  "i < length xs \<Longrightarrow> j < length xs \<Longrightarrow> k < length xs \<Longrightarrow>
   Swap xs i j ! k = (if k = j then xs ! i else if k = i then xs ! j else xs ! k)"
  by (simp add: Swap_def nth_list_update)

lemma perm_on_Swap:
  "a \<le> i \<Longrightarrow> i < b \<Longrightarrow> a \<le> j \<Longrightarrow> j < b \<Longrightarrow> b \<le> length xs \<Longrightarrow> perm_on a b xs (Swap xs i j)"
  using mset_swap[of j xs i] by (auto simp: perm_on_def Swap_nth) (simp add: Swap_def)

text \<open>The elements of a range are the same before and after.\<close>

lemma perm_on_slice:
  assumes "perm_on a b xs ys" "a \<le> b" "b \<le> length xs"
  shows "mset (take (b - a) (drop a ys)) = mset (take (b - a) (drop a xs))"
proof -
  have len: "length ys = length xs" using assms(1) by (rule perm_on_length)
  have t: "take a ys = take a xs"
    using assms len by (intro nth_equalityI) (auto simp: perm_on_def)
  have d: "drop b ys = drop b xs"
    using assms len by (intro nth_equalityI) (auto simp: perm_on_def)
  have split: "\<And>zs::'a list. b \<le> length zs \<Longrightarrow> zs = take a zs @ take (b - a) (drop a zs) @ drop b zs"
  proof -
    fix zs :: "'a list" assume "b \<le> length zs"
    have "drop (b - a) (drop a zs) = drop b zs" using assms(2) by simp
    then have "take (b - a) (drop a zs) @ drop b zs = drop a zs"
      by (metis append_take_drop_id)
    then show "zs = take a zs @ take (b - a) (drop a zs) @ drop b zs"
      by simp
  qed
  have "mset ys = mset (take a ys) + mset (take (b - a) (drop a ys)) + mset (drop b ys)"
    using split[of ys] assms(3) len by (metis mset_append add.assoc)
  moreover have "mset xs = mset (take a xs) + mset (take (b - a) (drop a xs)) + mset (drop b xs)"
    using split[of xs] assms(3) by (metis mset_append add.assoc)
  ultimately show ?thesis using perm_on_mset[OF assms(1)] t d by simp
qed

lemma slice_set:
  "b \<le> length xs \<Longrightarrow> set (take (b - a) (drop a xs)) = {xs ! i | i. a \<le> i \<and> i < b}"
proof (intro set_eqI iffI)
  fix x assume b: "b \<le> length xs" and "x \<in> set (take (b - a) (drop a xs))"
  then obtain k where k: "k < length (take (b - a) (drop a xs))" "x = take (b - a) (drop a xs) ! k"
    by (metis in_set_conv_nth)
  then have "k < b - a" "x = xs ! (a + k)" using b by auto
  then show "x \<in> {xs ! i | i. a \<le> i \<and> i < b}" by (intro CollectI exI[of _ "a + k"]) auto
next
  fix x assume b: "b \<le> length xs" and "x \<in> {xs ! i | i. a \<le> i \<and> i < b}"
  then obtain i where i: "a \<le> i" "i < b" "x = xs ! i" by auto
  then have "i - a < length (take (b - a) (drop a xs))" "take (b - a) (drop a xs) ! (i - a) = x"
    using b by auto
  then show "x \<in> set (take (b - a) (drop a xs))" by (metis nth_mem)
qed

lemma perm_on_elem:
  assumes "perm_on a b xs ys" "b \<le> length xs" "a \<le> i" "i < b"
  shows "\<exists>j. a \<le> j \<and> j < b \<and> ys ! i = xs ! j"
proof -
  have ab: "a \<le> b" using assms by simp
  have len: "length ys = length xs" using assms(1) by (rule perm_on_length)
  have "set (take (b - a) (drop a ys)) = set (take (b - a) (drop a xs))"
    using perm_on_slice[OF assms(1) ab assms(2)] by (rule mset_eq_setD)
  then have "{ys ! i | i. a \<le> i \<and> i < b} = {xs ! i | i. a \<le> i \<and> i < b}"
    using slice_set[of b xs a] slice_set[of b ys a] assms(2) len by simp
  moreover have "ys ! i \<in> {ys ! i | i. a \<le> i \<and> i < b}" using assms by auto
  ultimately show ?thesis by auto
qed

lemma perm_on_all:
  assumes "perm_on a b xs ys" "b \<le> length xs" "\<forall>i. a \<le> i \<and> i < b \<longrightarrow> P (xs ! i)" "a \<le> i" "i < b"
  shows "P (ys ! i)"
  using perm_on_elem[OF assms(1,2,4,5)] assms(3) by auto

subsection \<open>Insertion sort\<close>

lemma sorted_except_step:
  assumes "a < j" "j < t" "t \<le> length xs" "sorted_except key a j t xs"
    and above: "\<forall>k. j < k \<and> k < t \<longrightarrow> key (xs ! j) < key (xs ! k)"
    and less: "key (xs ! j) < key (xs ! (j - 1))"
  shows "sorted_except key a (j - 1) t (Swap xs j (j - 1))"
    and "\<forall>k. j - 1 < k \<and> k < t \<longrightarrow> key (Swap xs j (j - 1) ! (j - 1)) < key (Swap xs j (j - 1) ! k)"
proof -
  let ?ys = "Swap xs j (j - 1)"
  have nth: "\<And>k. k < t \<Longrightarrow> ?ys ! k = (if k = j - 1 then xs ! j else if k = j then xs ! (j - 1) else xs ! k)"
    using assms(1-3) by (simp add: Swap_nth)
  have se: "\<And>i k. a \<le> i \<Longrightarrow> i < k \<Longrightarrow> k < t \<Longrightarrow> i \<noteq> j \<Longrightarrow> k \<noteq> j \<Longrightarrow> key (xs ! i) \<le> key (xs ! k)"
    using assms(4) by (simp add: sorted_except_def)
  show "sorted_except key a (j - 1) t ?ys"
    unfolding sorted_except_def
  proof (intro allI impI)
    fix i k assume h: "a \<le> i \<and> i < k \<and> k < t \<and> i \<noteq> j - 1 \<and> k \<noteq> j - 1"
    show "key (?ys ! i) \<le> key (?ys ! k)"
    proof (cases "k = j")
      case True
      then have "i < j - 1" using h by arith
      then have "key (xs ! i) \<le> key (xs ! (j - 1))" using h assms(1,2) by (intro se) auto
      then show ?thesis using True h nth[of i] nth[of k] by simp
    next
      case False
      show ?thesis
      proof (cases "i = j")
        case True
        then have "key (xs ! (j - 1)) \<le> key (xs ! k)" using h assms(1) by (intro se) auto
        then show ?thesis using True False h nth[of i] nth[of k] by simp
      next
        case F2: False
        have "key (xs ! i) \<le> key (xs ! k)" using F2 False h by (intro se) auto
        then show ?thesis using F2 False h nth[of i] nth[of k] by simp
      qed
    qed
  qed
  show "\<forall>k. j - 1 < k \<and> k < t \<longrightarrow> key (?ys ! (j - 1)) < key (?ys ! k)"
  proof (intro allI impI)
    fix k assume h: "j - 1 < k \<and> k < t"
    show "key (?ys ! (j - 1)) < key (?ys ! k)"
    proof (cases "k = j")
      case True
      then show ?thesis using nth[of k] nth[of "j - 1"] less assms(1,2) by simp
    next
      case False
      then have "j < k" using h by arith
      then show ?thesis using nth[of k] nth[of "j - 1"] above h assms(1,2) by simp
    qed
  qed
qed

lemma sorted_except_done:
  assumes "a \<le> j" "j < t" "sorted_except key a j t xs"
    and above: "\<forall>k. j < k \<and> k < t \<longrightarrow> key (xs ! j) < key (xs ! k)"
    and stop: "j = a \<or> key (xs ! (j - 1)) \<le> key (xs ! j)"
  shows "sorted_on key a t xs"
  unfolding sorted_on_def
proof (intro allI impI)
  fix i k assume h: "a \<le> i \<and> i < k \<and> k < t"
  have se: "\<And>i k. a \<le> i \<Longrightarrow> i < k \<Longrightarrow> k < t \<Longrightarrow> i \<noteq> j \<Longrightarrow> k \<noteq> j \<Longrightarrow> key (xs ! i) \<le> key (xs ! k)"
    using assms(3) by (simp add: sorted_except_def)
  show "key (xs ! i) \<le> key (xs ! k)"
  proof (cases "k = j")
    case True
    then have ja: "j \<noteq> a" using h by simp
    then have s: "key (xs ! (j - 1)) \<le> key (xs ! j)" using stop by simp
    show ?thesis
    proof (cases "i = j - 1")
      case True
      then show ?thesis using s \<open>k = j\<close> by simp
    next
      case False
      then have "key (xs ! i) \<le> key (xs ! (j - 1))" using h \<open>k = j\<close> by (intro se) auto
      then show ?thesis using s \<open>k = j\<close> by simp
    qed
  next
    case False
    show ?thesis
    proof (cases "i = j")
      case True
      then show ?thesis using above h by (simp add: less_imp_le)
    next
      case F2: False
      then show ?thesis using h False by (intro se) auto
    qed
  qed
qed

lemma insertion_inner_correct:
  "\<forall>x y. lt x y = (key x < key y) \<Longrightarrow> a \<le> j \<Longrightarrow> j < t \<Longrightarrow> t \<le> length data
     \<Longrightarrow> sorted_except key a j t data
     \<Longrightarrow> \<forall>k. j < k \<and> k < t \<longrightarrow> key (data ! j) < key (data ! k)
     \<Longrightarrow> perm_on a t data (insertion_inner lt data a j)
         \<and> sorted_on key a t (insertion_inner lt data a j)"
proof (induction lt data a j rule: insertion_inner.induct)
  case (1 lt data a j)
  note lt = "1.prems"(1)
  show ?case
  proof (cases "j > a \<and> lt (data ! j) (data ! (j - 1))")
    case True
    let ?d = "Swap data j (j - 1)"
    have less: "key (data ! j) < key (data ! (j - 1))" using True lt by simp
    have aj: "a < j" using True by simp
    note st = sorted_except_step[OF aj "1.prems"(3,4,5,6) less]
    have p: "perm_on a t data ?d"
      using aj "1.prems" by (intro perm_on_Swap) auto
    have "perm_on a t ?d (insertion_inner lt ?d a (j - 1))
        \<and> sorted_on key a t (insertion_inner lt ?d a (j - 1))"
      using aj "1.prems" st by (intro "1.IH"[OF True lt]) auto
    then show ?thesis
      using True p by (subst (1 2) insertion_inner.simps) (auto intro: perm_on_trans)
  next
    case False
    then have stop: "j = a \<or> key (data ! (j - 1)) \<le> key (data ! j)"
      using lt "1.prems"(2) by auto
    have "sorted_on key a t data"
      using sorted_except_done[OF "1.prems"(2,3,5,6) stop] .
    then show ?thesis using False by (subst (1 2) insertion_inner.simps) auto
  qed
qed

lemma sorted_on_mono: "sorted_on key a b xs \<Longrightarrow> a \<le> a' \<Longrightarrow> b' \<le> b \<Longrightarrow> sorted_on key a' b' xs"
  by (auto simp: sorted_on_def)

lemma insertion_outer_correct:
  "\<forall>x y. lt x y = (key x < key y) \<Longrightarrow> a < i \<Longrightarrow> b \<le> length data \<Longrightarrow> sorted_on key a i data
     \<Longrightarrow> perm_on a b data (insertion_outer lt data a b i)
         \<and> sorted_on key a b (insertion_outer lt data a b i)"
proof (induction lt data a b i rule: insertion_outer.induct)
  case (1 lt data a b i)
  note lt = "1.prems"(1)
  show ?case
  proof (cases "i < b")
    case True
    let ?d = "insertion_inner lt data a i"
    have se: "sorted_except key a i (i + 1) data"
      using "1.prems"(4) by (auto simp: sorted_except_def sorted_on_def)
    have inner: "perm_on a (i + 1) data ?d \<and> sorted_on key a (i + 1) ?d"
      using True "1.prems" se by (intro insertion_inner_correct) auto
    have len: "length ?d = length data" using inner by (auto dest: perm_on_length)
    have "perm_on a b ?d (insertion_outer lt ?d a b (i + 1))
        \<and> sorted_on key a b (insertion_outer lt ?d a b (i + 1))"
      using "1.prems" inner len by (intro "1.IH"[OF True lt]) auto
    moreover have "perm_on a b data ?d" using inner True by (auto intro: perm_on_widen)
    ultimately show ?thesis
      using True by (subst (1 2) insertion_outer.simps) (auto intro: perm_on_trans)
  next
    case False
    then have "sorted_on key a b data" using "1.prems"(4) by (auto intro: sorted_on_mono)
    then show ?thesis using False by (subst (1 2) insertion_outer.simps) auto
  qed
qed

lemma insertionSort_correct:
  assumes "\<forall>x y. lt x y = (key x < key y)" "b \<le> length data"
  shows "perm_on a b data (insertionSort_func lt data a b)
       \<and> sorted_on key a b (insertionSort_func lt data a b)"
  unfolding insertionSort_func_def
  using assms by (intro insertion_outer_correct) (auto simp: sorted_on_def)

subsection \<open>Heap sort\<close>

lemma parent_cases: "0 < c \<Longrightarrow> (c - 1) div 2 = r \<longleftrightarrow> c = 2 * r + 1 \<or> c = 2 * r + 2" for c r :: nat
  by arith

lemma siftDown_correct:
  "\<forall>x y. lt x y = (key x < key y) \<Longrightarrow> f + hi \<le> length data \<Longrightarrow> l \<le> r
     \<Longrightarrow> heap_ok key data f hi l r
     \<Longrightarrow> perm_on (f + r) (f + hi) data (siftDown_func lt data r hi f)
         \<and> heap_from key (siftDown_func lt data r hi f) f hi l"
proof (induction lt data r hi f rule: siftDown_func.induct)
  case (1 lt data r hi f)
  note lt = "1.prems"(1)
  note ok = "1.prems"(4)
  have ok1: "\<And>c. 0 < c \<Longrightarrow> c < hi \<Longrightarrow> l \<le> (c - 1) div 2 \<Longrightarrow> (c - 1) div 2 \<noteq> r
      \<Longrightarrow> key (data ! (f + c)) \<le> key (data ! (f + (c - 1) div 2))"
    using ok by (simp add: heap_ok_def)
  have ok2: "\<And>c. 0 < r \<Longrightarrow> l \<le> (r - 1) div 2 \<Longrightarrow> 0 < c \<Longrightarrow> c < hi \<Longrightarrow> (c - 1) div 2 = r
      \<Longrightarrow> key (data ! (f + c)) \<le> key (data ! (f + (r - 1) div 2))"
    using ok by (simp add: heap_ok_def)
  show ?case
  proof (cases "2 * r + 1 \<ge> hi")
    case True
    have "heap_from key data f hi l"
      unfolding heap_from_def
    proof (intro allI impI)
      fix c assume c: "0 < c \<and> c < hi \<and> l \<le> (c - 1) div 2"
      then have "(c - 1) div 2 \<noteq> r" using True by arith
      then show "key (data ! (f + c)) \<le> key (data ! (f + (c - 1) div 2))" using c ok1 by simp
    qed
    then show ?thesis using True by (subst (1 2) siftDown_func.simps) (simp add: Let_def)
  next
    case False
    define child where "child = (if 2 * r + 1 + 1 < hi \<and> lt (data ! (f + (2 * r + 1))) (data ! (f + (2 * r + 1) + 1))
                     then 2 * r + 1 + 1 else 2 * r + 1)"
    have ch: "child = 2 * r + 1 \<or> child = 2 * r + 2" "child < hi" "r < child"
      using False by (auto simp: child_def)
    have chmax: "\<And>c. c < hi \<Longrightarrow> c = 2 * r + 1 \<or> c = 2 * r + 2 \<Longrightarrow> key (data ! (f + c)) \<le> key (data ! (f + child))"
      using lt by (auto simp: child_def not_less)
    have unfold: "siftDown_func lt data r hi f =
        (if \<not> lt (data ! (f + r)) (data ! (f + child)) then data
         else siftDown_func lt (Swap data (f + r) (f + child)) child hi f)"
      using False by (subst siftDown_func.simps) (simp add: Let_def child_def)
    show ?thesis
    proof (cases "lt (data ! (f + r)) (data ! (f + child))")
      case F2: False
      then have rc: "key (data ! (f + child)) \<le> key (data ! (f + r))" using lt by (simp add: not_less)
      have "heap_from key data f hi l"
        unfolding heap_from_def
      proof (intro allI impI)
        fix c assume c: "0 < c \<and> c < hi \<and> l \<le> (c - 1) div 2"
        show "key (data ! (f + c)) \<le> key (data ! (f + (c - 1) div 2))"
        proof (cases "(c - 1) div 2 = r")
          case True
          then have "c = 2 * r + 1 \<or> c = 2 * r + 2" using c parent_cases by simp
          then have "key (data ! (f + c)) \<le> key (data ! (f + child))" using chmax c by simp
          then show ?thesis using rc True by simp
        next
          case False
          then show ?thesis using c ok1 by simp
        qed
      qed
      then show ?thesis
        using F2 by (simp add: unfold)
    next
      case T2: True
      then have rc: "key (data ! (f + r)) < key (data ! (f + child))" using lt by simp
      let ?d = "Swap data (f + r) (f + child)"
      have rhi: "r < hi" using ch by simp
      have nth: "\<And>k. k < hi \<Longrightarrow> ?d ! (f + k)
          = (if k = child then data ! (f + r) else if k = r then data ! (f + child) else data ! (f + k))"
        using "1.prems"(2) ch rhi by (simp add: Swap_nth)
      have ok': "heap_ok key ?d f hi l child"
        unfolding heap_ok_def
      proof (intro conjI allI impI)
        fix c assume c: "0 < c \<and> c < hi \<and> l \<le> (c - 1) div 2 \<and> (c - 1) div 2 \<noteq> child"
        then have p: "(c - 1) div 2 < hi" by arith
        show "key (?d ! (f + c)) \<le> key (?d ! (f + (c - 1) div 2))"
        proof (cases "(c - 1) div 2 = r")
          case True
          then have cc: "c = 2 * r + 1 \<or> c = 2 * r + 2" using c parent_cases by simp
          then have cr: "c \<noteq> r" by arith
          show ?thesis
          proof (cases "c = child")
            case True
            then show ?thesis using \<open>(c - 1) div 2 = r\<close> nth[of c] nth[of r] rhi c rc ch by simp
          next
            case False
            have "key (data ! (f + c)) \<le> key (data ! (f + child))" using chmax cc c by simp
            then show ?thesis using False cr \<open>(c - 1) div 2 = r\<close> nth[of c] nth[of r] rhi c ch by simp
          qed
        next
          case False
          have pc: "(c - 1) div 2 \<noteq> child" using c by simp
          show ?thesis
          proof (cases "c = r")
            case True
            then have "0 < r" "l \<le> (r - 1) div 2" using c by auto
            then have "key (data ! (f + child)) \<le> key (data ! (f + (r - 1) div 2))"
              using ok2[of child] ch parent_cases[of child r] by auto
            moreover have "(r - 1) div 2 \<noteq> r" using \<open>0 < r\<close> by arith
            ultimately show ?thesis using True nth[of r] nth[of "(r - 1) div 2"] pc p c ch by simp
          next
            case F3: False
            have "c \<noteq> child" using False ch c parent_cases[of c r] by auto
            then show ?thesis using F3 False pc nth[of c] nth[of "(c - 1) div 2"] p c ok1[of c] by simp
          qed
        qed
      next
        fix c assume h: "0 < child \<and> l \<le> (child - 1) div 2" and c: "0 < c \<and> c < hi \<and> (c - 1) div 2 = child"
        have pr: "(child - 1) div 2 = r" using ch parent_cases[of child r] by auto
        have "c \<noteq> r" "c \<noteq> child" using c ch by arith+
        moreover have "key (data ! (f + c)) \<le> key (data ! (f + child))"
          using ok1[of c] c ch "1.prems"(3) by simp
        ultimately show "key (?d ! (f + c)) \<le> key (?d ! (f + (child - 1) div 2))"
          using pr nth[of c] nth[of r] rhi c by simp
      qed
      have len: "f + hi \<le> length ?d" using "1.prems"(2) by simp
      have lc: "l \<le> child" using "1.prems"(3) ch by simp
      have nn: "\<not> \<not> lt (data ! (f + r)) (data ! (f + child))" using T2 by simp
      have IH: "perm_on (f + child) (f + hi) ?d (siftDown_func lt ?d child hi f)
              \<and> heap_from key (siftDown_func lt ?d child hi f) f hi l"
        using "1.IH"[OF refl False child_def nn lt len lc ok'] .
      have p: "perm_on (f + r) (f + hi) data ?d"
        using ch rhi "1.prems"(2) by (intro perm_on_Swap) auto
      have "perm_on (f + r) (f + hi) ?d (siftDown_func lt ?d child hi f)"
        using IH ch by (auto intro: perm_on_widen)
      with p IH show ?thesis
        using T2 by (auto simp: unfold intro: perm_on_trans)
    qed
  qed
qed

lemma heap_root_max:
  "heap_from key data f n 0 \<Longrightarrow> c < n \<Longrightarrow> key (data ! (f + c)) \<le> key (data ! f)"
proof (induction c rule: less_induct)
  case (less c)
  show ?case
  proof (cases "c = 0")
    case True
    then show ?thesis by simp
  next
    case False
    then have p: "(c - 1) div 2 < c" by arith
    have "key (data ! (f + c)) \<le> key (data ! (f + (c - 1) div 2))"
      using less.prems False by (simp add: heap_from_def)
    moreover have "key (data ! (f + (c - 1) div 2)) \<le> key (data ! f)"
      using less.IH[OF p less.prems(1)] p less.prems(2) by simp
    ultimately show ?thesis by simp
  qed
qed

lemma heapify_loop_correct:
  "\<forall>x y. lt x y = (key x < key y) \<Longrightarrow> f + hi \<le> length data \<Longrightarrow> heap_from key data f hi (i + 1)
     \<Longrightarrow> perm_on f (f + hi) data (heapify_loop lt data hi f i)
         \<and> heap_from key (heapify_loop lt data hi f i) f hi 0"
proof (induction i arbitrary: data)
  case 0
  have ok: "heap_ok key data f hi 0 0"
    using 0(3) unfolding heap_ok_def heap_from_def by (auto simp: Suc_le_eq)
  show ?case using siftDown_correct[OF 0(1,2) _ ok] by simp
next
  case (Suc i)
  have ok: "heap_ok key data f hi (Suc i) (Suc i)"
    unfolding heap_ok_def
  proof (intro conjI allI impI)
    fix c assume "0 < c \<and> c < hi \<and> Suc i \<le> (c - 1) div 2 \<and> (c - 1) div 2 \<noteq> Suc i"
    then show "key (data ! (f + c)) \<le> key (data ! (f + (c - 1) div 2))"
      using Suc.prems(3) by (simp add: heap_from_def)
  next
    fix c assume "0 < Suc i \<and> Suc i \<le> (Suc i - 1) div 2"
    then have False by arith
    then show "key (data ! (f + c)) \<le> key (data ! (f + (Suc i - 1) div 2))" ..
  qed
  let ?d = "siftDown_func lt data (Suc i) hi f"
  have sd: "perm_on (f + Suc i) (f + hi) data ?d \<and> heap_from key ?d f hi (Suc i)"
    using siftDown_correct[OF Suc.prems(1,2) _ ok] by simp
  then have len: "f + hi \<le> length ?d" using Suc.prems(2) by (auto dest: perm_on_length)
  have "perm_on f (f + hi) ?d (heapify_loop lt ?d hi f i) \<and> heap_from key (heapify_loop lt ?d hi f i) f hi 0"
    using sd by (intro Suc.IH[OF Suc.prems(1) len]) simp
  moreover have "perm_on f (f + hi) data ?d" using sd by (auto intro: perm_on_widen)
  ultimately show ?case by (auto intro: perm_on_trans)
qed

lemma pop_loop_correct:
  "\<forall>x y. lt x y = (key x < key y) \<Longrightarrow> n \<le> hi \<Longrightarrow> f + hi \<le> length data
     \<Longrightarrow> heap_from key data f n 0 \<Longrightarrow> sorted_on key (f + n) (f + hi) data
     \<Longrightarrow> \<forall>x y. f \<le> x \<and> x < f + n \<and> f + n \<le> y \<and> y < f + hi \<longrightarrow> key (data ! x) \<le> key (data ! y)
     \<Longrightarrow> perm_on f (f + hi) data (pop_loop lt data f n)
         \<and> sorted_on key f (f + hi) (pop_loop lt data f n)"
proof (induction n arbitrary: data)
  case 0
  then show ?case by simp
next
  case (Suc i)
  note lt = Suc.prems(1)
  let ?d1 = "Swap data f (f + i)"
  let ?d2 = "siftDown_func lt ?d1 0 i f"
  have ihi: "i < hi" using Suc.prems(2) by simp
  have nth1: "\<And>k. k < length data \<Longrightarrow> ?d1 ! k = (if k = f + i then data ! f else if k = f then data ! (f + i) else data ! k)"
    using Suc.prems(3) ihi by (simp add: Swap_nth)
  have hf: "\<And>c. 0 < c \<Longrightarrow> c < Suc i \<Longrightarrow> key (data ! (f + c)) \<le> key (data ! (f + (c - 1) div 2))"
    using Suc.prems(4) by (simp add: heap_from_def)
  have ok: "heap_ok key ?d1 f i 0 0"
    unfolding heap_ok_def
  proof (intro conjI allI impI)
    fix c assume c: "0 < c \<and> c < i \<and> 0 \<le> (c - 1) div 2 \<and> (c - 1) div 2 \<noteq> 0"
    then have "(c - 1) div 2 < i" by arith
    then show "key (?d1 ! (f + c)) \<le> key (?d1 ! (f + (c - 1) div 2))"
      using c nth1[of "f + c"] nth1[of "f + (c - 1) div 2"] hf[of c] Suc.prems(3) ihi by simp
  next
    fix c assume "(0::nat) < 0 \<and> (0::nat) \<le> (0 - 1) div 2"
    then show "key (?d1 ! (f + c)) \<le> key (?d1 ! (f + (0 - 1) div 2))" by simp
  qed
  have len1: "f + i \<le> length ?d1" using Suc.prems(3) ihi by simp
  have sd: "perm_on f (f + i) ?d1 ?d2 \<and> heap_from key ?d2 f i 0"
    using siftDown_correct[OF lt len1 _ ok] by simp
  have len2: "length ?d2 = length data" using sd by (auto dest: perm_on_length)
  have nth2: "\<And>k. k < length data \<Longrightarrow> f + i \<le> k \<Longrightarrow> ?d2 ! k = ?d1 ! k"
    using sd perm_on_outside[of f "f + i" ?d1 ?d2] by simp
  have root: "\<And>c. c < Suc i \<Longrightarrow> key (data ! (f + c)) \<le> key (data ! f)"
    using heap_root_max[OF Suc.prems(4)] .
  have cross: "\<And>x y. f \<le> x \<Longrightarrow> x < f + Suc i \<Longrightarrow> f + Suc i \<le> y \<Longrightarrow> y < f + hi \<Longrightarrow> key (data ! x) \<le> key (data ! y)"
    using Suc.prems(6) by simp
  have srt: "\<And>x y. f + Suc i \<le> x \<Longrightarrow> x < y \<Longrightarrow> y < f + hi \<Longrightarrow> key (data ! x) \<le> key (data ! y)"
    using Suc.prems(5) by (simp add: sorted_on_def)
  have s2: "sorted_on key (f + i) (f + hi) ?d2"
    unfolding sorted_on_def
  proof (intro allI impI)
    fix x y assume h: "f + i \<le> x \<and> x < y \<and> y < f + hi"
    then have xy: "x < length data" "y < length data" using Suc.prems(3) by auto
    show "key (?d2 ! x) \<le> key (?d2 ! y)"
    proof (cases "x = f + i")
      case True
      have "key (data ! f) \<le> key (data ! y)" using h True by (intro cross) auto
      then show ?thesis using True h xy nth2[of x] nth2[of y] nth1[of x] nth1[of y] by simp
    next
      case False
      have "key (data ! x) \<le> key (data ! y)" using h False by (intro srt) auto
      then show ?thesis using False h xy nth2[of x] nth2[of y] nth1[of x] nth1[of y] by simp
    qed
  qed
  have c2: "\<forall>x y. f \<le> x \<and> x < f + i \<and> f + i \<le> y \<and> y < f + hi \<longrightarrow> key (?d2 ! x) \<le> key (?d2 ! y)"
  proof (intro allI impI)
    fix x y assume h: "f \<le> x \<and> x < f + i \<and> f + i \<le> y \<and> y < f + hi"
    then have ylen: "y < length data" using Suc.prems(3) by auto
    obtain x' where x': "f \<le> x'" "x' < f + i" "?d2 ! x = ?d1 ! x'"
      using perm_on_elem[of f "f + i" ?d1 ?d2 x] sd len1 h by auto
    define x'' where "x'' = (if x' = f then f + i else x')"
    have x'': "f \<le> x''" "x'' < f + Suc i" "?d1 ! x' = data ! x''"
      using x' nth1[of x'] Suc.prems(3) ihi by (auto simp: x''_def)
    show "key (?d2 ! x) \<le> key (?d2 ! y)"
    proof (cases "y = f + i")
      case True
      have "key (data ! (f + (x'' - f))) \<le> key (data ! f)" using x'' by (intro root) auto
      then show ?thesis using True x' x'' ylen nth2[of y] nth1[of y] by simp
    next
      case False
      have "key (data ! x'') \<le> key (data ! y)" using x'' h False by (intro cross) auto
      then show ?thesis using False x' x'' h ylen nth2[of y] nth1[of y] by simp
    qed
  qed
  have IH: "perm_on f (f + hi) ?d2 (pop_loop lt ?d2 f i) \<and> sorted_on key f (f + hi) (pop_loop lt ?d2 f i)"
    using ihi Suc.prems(3) len2 sd s2 c2 by (intro Suc.IH[OF lt]) auto
  have p1: "perm_on f (f + hi) data ?d1" using ihi Suc.prems(3) by (intro perm_on_Swap) auto
  have p2: "perm_on f (f + hi) ?d1 ?d2" using sd ihi by (auto intro: perm_on_widen)
  show ?case using IH p1 p2 by (auto intro: perm_on_trans)
qed

lemma heapSort_correct:
  assumes "\<forall>x y. lt x y = (key x < key y)" "a \<le> b" "b \<le> length data"
  shows "perm_on a b data (heapSort_func lt data a b) \<and> sorted_on key a b (heapSort_func lt data a b)"
proof -
  define hi where "hi = b - a"
  have ab: "a + hi = b" using assms(2) by (simp add: hi_def)
  let ?d = "heapify_loop lt data hi a ((hi - 1) div 2)"
  have h0: "heap_from key data a hi ((hi - 1) div 2 + 1)"
    unfolding heap_from_def
  proof (intro allI impI)
    fix c assume "0 < c \<and> c < hi \<and> (hi - 1) div 2 + 1 \<le> (c - 1) div 2"
    then have False by arith
    then show "key (data ! (a + c)) \<le> key (data ! (a + (c - 1) div 2))" ..
  qed
  have hp: "perm_on a (a + hi) data ?d \<and> heap_from key ?d a hi 0"
    using assms ab h0 by (intro heapify_loop_correct) auto
  then have len: "a + hi \<le> length ?d" using assms ab by (auto dest: perm_on_length)
  have "perm_on a (a + hi) ?d (pop_loop lt ?d a hi) \<and> sorted_on key a (a + hi) (pop_loop lt ?d a hi)"
    using hp len by (intro pop_loop_correct[OF assms(1)]) (auto simp: sorted_on_def)
  then show ?thesis
    using hp ab by (auto simp: heapSort_func_def Let_def hi_def[symmetric] intro: perm_on_trans)
qed

subsection \<open>Partitioning\<close>

lemma scan_up_all:
  "i \<le> k \<Longrightarrow> k < scan_up lt data a i j \<Longrightarrow> lt (data ! k) (data ! a)"
proof (induction lt data a i j rule: scan_up.induct)
  case (1 lt data a i j)
  show ?case
  proof (cases "i \<le> j \<and> lt (data ! i) (data ! a)")
    case True
    then have eq: "scan_up lt data a i j = scan_up lt data a (i + 1) j"
      by (subst scan_up.simps) simp
    show ?thesis
    proof (cases "k = i")
      case True
      then show ?thesis using \<open>i \<le> j \<and> lt (data ! i) (data ! a)\<close> by simp
    next
      case False
      then show ?thesis using "1.IH"[OF True] "1.prems" eq by simp
    qed
  next
    case False
    then have "scan_up lt data a i j = i" by (subst scan_up.simps) auto
    then show ?thesis using "1.prems" by simp
  qed
qed

lemma scan_down_all:
  "scan_down lt data a i j < k \<Longrightarrow> k \<le> j \<Longrightarrow> \<not> lt (data ! k) (data ! a)"
proof (induction lt data a i j rule: scan_down.induct)
  case (1 lt data a i j)
  show ?case
  proof (cases "i \<le> j \<and> 0 < j \<and> \<not> lt (data ! j) (data ! a)")
    case True
    then have eq: "scan_down lt data a i j = scan_down lt data a i (j - 1)"
      by (subst scan_down.simps) simp
    show ?thesis
    proof (cases "k = j")
      case True
      then show ?thesis using \<open>i \<le> j \<and> 0 < j \<and> \<not> lt (data ! j) (data ! a)\<close> by simp
    next
      case False
      then have "k \<le> j - 1" using "1.prems" by simp
      then show ?thesis using "1.IH"[OF True] "1.prems" eq by simp
    qed
  next
    case False
    then have "scan_down lt data a i j = j" by (subst scan_down.simps) auto
    then show ?thesis using "1.prems" by simp
  qed
qed

lemma partition_loop_correct:
  "\<forall>x y. lt x y = (key x < key y) \<Longrightarrow> a < i \<Longrightarrow> j < b \<Longrightarrow> b \<le> length data \<Longrightarrow> i \<le> j + 1
     \<Longrightarrow> \<forall>k. a < k \<and> k < i \<longrightarrow> key (data ! k) < key (data ! a)
     \<Longrightarrow> \<forall>k. j < k \<and> k < b \<longrightarrow> key (data ! a) \<le> key (data ! k)
     \<Longrightarrow> perm_on a b data (snd (snd (partition_loop lt data a i j)))
         \<and> partitioned key a b (fst (partition_loop lt data a i j)) (snd (snd (partition_loop lt data a i j)))"
proof (induction lt data a i j rule: partition_loop.induct)
  case (1 lt data a i j)
  note lt = "1.prems"(1)
  define i' where "i' = scan_up lt data a i j"
  define j' where "j' = scan_down lt data a i' j"
  have i': "i \<le> i'" "i' \<le> Suc j"
    unfolding i'_def using "1.prems"(5) by (auto intro: scan_up_ge scan_up_le)
  have j': "j' \<le> j" "i' \<le> Suc j'"
    unfolding j'_def using i' by (auto intro: scan_down_le scan_down_ge)
  have L: "\<And>k. a < k \<Longrightarrow> k < i' \<Longrightarrow> key (data ! k) < key (data ! a)"
  proof -
    fix k assume k: "a < k" "k < i'"
    show "key (data ! k) < key (data ! a)"
    proof (cases "k < i")
      case True
      then show ?thesis using "1.prems"(6) k by simp
    next
      case False
      then have "lt (data ! k) (data ! a)" using k scan_up_all[of i k lt data a j] by (simp add: i'_def)
      then show ?thesis using lt by simp
    qed
  qed
  have R: "\<And>k. j' < k \<Longrightarrow> k < b \<Longrightarrow> key (data ! a) \<le> key (data ! k)"
  proof -
    fix k assume k: "j' < k" "k < b"
    show "key (data ! a) \<le> key (data ! k)"
    proof (cases "j < k")
      case True
      then show ?thesis using "1.prems"(7) k by simp
    next
      case False
      then have "\<not> lt (data ! k) (data ! a)" using k scan_down_all[of lt data a i' j k] by (simp add: j'_def)
      then show ?thesis using lt by (simp add: not_less)
    qed
  qed
  show ?case
  proof (cases "i' > j'")
    case True
    then have res: "partition_loop lt data a i j = (j', False, Swap data j' a)"
      by (subst partition_loop.simps) (simp add: Let_def i'_def j'_def)
    have ij: "i' = Suc j'" using True j' by simp
    have aj: "a \<le> j'" using ij i' "1.prems"(2) by simp
    have jb: "j' < b" using j' "1.prems"(3) by simp
    let ?d = "Swap data j' a"
    have nth: "\<And>k. k < b \<Longrightarrow> ?d ! k = (if k = a then data ! j' else if k = j' then data ! a else data ! k)"
      using aj jb "1.prems"(4) by (simp add: Swap_nth)
    have "partitioned key a b j' ?d"
      unfolding partitioned_def
    proof (intro conjI allI impI)
      show "a \<le> j'" "j' < b" using aj jb by auto
    next
      fix k assume k: "a \<le> k \<and> k < j'"
      then have "key (data ! j') < key (data ! a)" using L[of j'] ij by simp
      moreover have "a < k \<Longrightarrow> key (data ! k) < key (data ! a)" using L[of k] k ij by simp
      ultimately show "key (?d ! k) < key (?d ! j')"
        using k jb nth[of k] nth[of j'] by (cases "k = a") auto
    next
      fix k assume k: "j' < k \<and> k < b"
      then show "key (?d ! j') \<le> key (?d ! k)"
        using R[of k] aj jb nth[of k] nth[of j'] by simp
    qed
    moreover have "perm_on a b data ?d"
      using aj jb "1.prems"(4) by (intro perm_on_Swap) auto
    ultimately show ?thesis by (simp add: res)
  next
    case False
    then have le: "i' \<le> j'" by simp
    let ?d = "Swap data i' j'"
    have res: "partition_loop lt data a i j = partition_loop lt ?d a (i' + 1) (j' - 1)"
      using False by (subst partition_loop.simps) (simp add: Let_def i'_def j'_def)
    have si: "\<not> lt (data ! i') (data ! a)"
      using scan_up_stop[of lt data a i j] le j' by (simp add: i'_def)
    have sj: "lt (data ! j') (data ! a)"
      using scan_down_stop[of i' lt data a j] le i' "1.prems"(2) by (simp add: j'_def)
    have ne: "i' \<noteq> j'" using si sj by auto
    have ai: "a < i'" using i' "1.prems"(2) by simp
    have jb: "j' < b" using j' "1.prems"(3) by simp
    have nth: "\<And>k. k < b \<Longrightarrow> ?d ! k = (if k = j' then data ! i' else if k = i' then data ! j' else data ! k)"
      using le jb "1.prems"(4) by (simp add: Swap_nth)
    have L': "\<forall>k. a < k \<and> k < i' + 1 \<longrightarrow> key (?d ! k) < key (?d ! a)"
    proof (intro allI impI)
      fix k assume k: "a < k \<and> k < i' + 1"
      show "key (?d ! k) < key (?d ! a)"
      proof (cases "k = i'")
        case True
        then show ?thesis using sj lt nth[of k] nth[of a] ai le jb ne by simp
      next
        case False
        then have "k < i'" using k by arith
        then show ?thesis using L[of k] k nth[of k] nth[of a] ai le jb by simp
      qed
    qed
    have R': "\<forall>k. j' - 1 < k \<and> k < b \<longrightarrow> key (?d ! a) \<le> key (?d ! k)"
    proof (intro allI impI)
      fix k assume k: "j' - 1 < k \<and> k < b"
      show "key (?d ! a) \<le> key (?d ! k)"
      proof (cases "k = j'")
        case True
        then show ?thesis using si lt nth[of k] nth[of a] ai le jb ne by (simp add: not_less)
      next
        case False
        then have "j' < k" using k by arith
        then show ?thesis using R[of k] k nth[of k] nth[of a] ai le jb by simp
      qed
    qed
    have IH: "perm_on a b ?d (snd (snd (partition_loop lt ?d a (i' + 1) (j' - 1))))
         \<and> partitioned key a b (fst (partition_loop lt ?d a (i' + 1) (j' - 1)))
              (snd (snd (partition_loop lt ?d a (i' + 1) (j' - 1))))"
      using ai jb le ne "1.prems"(4) L' R'
      by (intro "1.IH"[OF i'_def j'_def _ lt]) (auto simp: False)
    have "perm_on a b data ?d" using ai le jb "1.prems"(4) by (intro perm_on_Swap) auto
    then show ?thesis using IH by (auto simp: res intro: perm_on_trans)
  qed
qed

lemma partition_func_loop:
  "fst (partition_func lt data a b pivot) = fst (partition_loop lt (Swap data a pivot) a (a + 1) (b - 1))
   \<and> snd (snd (partition_func lt data a b pivot))
       = snd (snd (partition_loop lt (Swap data a pivot) a (a + 1) (b - 1)))"
  by (subst (1 2) partition_loop.simps) (simp add: partition_func_def Let_def)

lemma partition_func_correct:
  assumes "\<forall>x y. lt x y = (key x < key y)" "a < b" "b \<le> length data" "a \<le> pivot" "pivot < b"
  shows "perm_on a b data (snd (snd (partition_func lt data a b pivot)))
       \<and> partitioned key a b (fst (partition_func lt data a b pivot))
            (snd (snd (partition_func lt data a b pivot)))"
proof -
  let ?d = "Swap data a pivot"
  have "perm_on a b ?d (snd (snd (partition_loop lt ?d a (a + 1) (b - 1))))
      \<and> partitioned key a b (fst (partition_loop lt ?d a (a + 1) (b - 1)))
           (snd (snd (partition_loop lt ?d a (a + 1) (b - 1))))"
    using assms by (intro partition_loop_correct) auto
  moreover have "perm_on a b data ?d" using assms by (intro perm_on_Swap) auto
  ultimately show ?thesis by (auto simp: partition_func_loop intro: perm_on_trans)
qed

lemma scan_up_eq_le: "i \<le> Suc j \<Longrightarrow> scan_up_eq lt data a i j \<le> Suc j"
  by (induction lt data a i j rule: scan_up_eq.induct) (subst scan_up_eq.simps, auto)

lemma scan_down_eq_ge: "i \<le> Suc j \<Longrightarrow> i \<le> Suc (scan_down_eq lt data a i j)"
  by (induction lt data a i j rule: scan_down_eq.induct) (subst scan_down_eq.simps, auto)

lemma scan_up_eq_stop:
  "scan_up_eq lt data a i j \<le> j \<Longrightarrow> lt (data ! a) (data ! scan_up_eq lt data a i j)"
  by (induction lt data a i j rule: scan_up_eq.induct)
    (subst (asm) scan_up_eq.simps, subst scan_up_eq.simps, auto)

lemma scan_down_eq_stop:
  "0 < i \<Longrightarrow> i \<le> scan_down_eq lt data a i j
     \<Longrightarrow> \<not> lt (data ! a) (data ! scan_down_eq lt data a i j)"
  by (induction lt data a i j rule: scan_down_eq.induct)
    (subst (asm) (2) scan_down_eq.simps, subst scan_down_eq.simps, auto)

lemma scan_up_eq_all:
  "i \<le> k \<Longrightarrow> k < scan_up_eq lt data a i j \<Longrightarrow> \<not> lt (data ! a) (data ! k)"
proof (induction lt data a i j rule: scan_up_eq.induct)
  case (1 lt data a i j)
  show ?case
  proof (cases "i \<le> j \<and> \<not> lt (data ! a) (data ! i)")
    case True
    then have eq: "scan_up_eq lt data a i j = scan_up_eq lt data a (i + 1) j"
      by (subst scan_up_eq.simps) simp
    show ?thesis
    proof (cases "k = i")
      case True
      then show ?thesis using \<open>i \<le> j \<and> \<not> lt (data ! a) (data ! i)\<close> by simp
    next
      case False
      then show ?thesis using "1.IH"[OF True] "1.prems" eq by simp
    qed
  next
    case False
    then have "scan_up_eq lt data a i j = i" by (subst scan_up_eq.simps) auto
    then show ?thesis using "1.prems" by simp
  qed
qed

lemma scan_down_eq_all:
  "scan_down_eq lt data a i j < k \<Longrightarrow> k \<le> j \<Longrightarrow> lt (data ! a) (data ! k)"
proof (induction lt data a i j rule: scan_down_eq.induct)
  case (1 lt data a i j)
  show ?case
  proof (cases "i \<le> j \<and> 0 < j \<and> lt (data ! a) (data ! j)")
    case True
    then have eq: "scan_down_eq lt data a i j = scan_down_eq lt data a i (j - 1)"
      by (subst scan_down_eq.simps) simp
    show ?thesis
    proof (cases "k = j")
      case True
      then show ?thesis using \<open>i \<le> j \<and> 0 < j \<and> lt (data ! a) (data ! j)\<close> by simp
    next
      case False
      then have "k \<le> j - 1" using "1.prems" by simp
      then show ?thesis using "1.IH"[OF True] "1.prems" eq by simp
    qed
  next
    case False
    then have "scan_down_eq lt data a i j = j" by (subst scan_down_eq.simps) auto
    then show ?thesis using "1.prems" by simp
  qed
qed

lemma partitionEqual_loop_correct:
  "\<forall>x y. lt x y = (key x < key y) \<Longrightarrow> a < i \<Longrightarrow> j < b \<Longrightarrow> b \<le> length data \<Longrightarrow> i \<le> j + 1
     \<Longrightarrow> \<forall>k. a < k \<and> k < i \<longrightarrow> key (data ! k) \<le> key (data ! a)
     \<Longrightarrow> \<forall>k. j < k \<and> k < b \<longrightarrow> key (data ! a) < key (data ! k)
     \<Longrightarrow> perm_on a b data (snd (partitionEqual_loop lt data a i j))
         \<and> partitioned_eq key a b (fst (partitionEqual_loop lt data a i j)) (key (data ! a))
              (snd (partitionEqual_loop lt data a i j))"
proof (induction lt data a i j rule: partitionEqual_loop.induct)
  case (1 lt data a i j)
  note lt = "1.prems"(1)
  define i' where "i' = scan_up_eq lt data a i j"
  define j' where "j' = scan_down_eq lt data a i' j"
  have i': "i \<le> i'" "i' \<le> Suc j"
    unfolding i'_def using "1.prems"(5) by (auto intro: scan_up_eq_ge scan_up_eq_le)
  have j': "j' \<le> j" "i' \<le> Suc j'"
    unfolding j'_def using i' by (auto intro: scan_down_eq_le scan_down_eq_ge)
  have L: "\<And>k. a < k \<Longrightarrow> k < i' \<Longrightarrow> key (data ! k) \<le> key (data ! a)"
  proof -
    fix k assume k: "a < k" "k < i'"
    show "key (data ! k) \<le> key (data ! a)"
    proof (cases "k < i")
      case True
      then show ?thesis using "1.prems"(6) k by simp
    next
      case False
      then have "\<not> lt (data ! a) (data ! k)" using k scan_up_eq_all[of i k lt data a j] by (simp add: i'_def)
      then show ?thesis using lt by (simp add: not_less)
    qed
  qed
  have R: "\<And>k. j' < k \<Longrightarrow> k < b \<Longrightarrow> key (data ! a) < key (data ! k)"
  proof -
    fix k assume k: "j' < k" "k < b"
    show "key (data ! a) < key (data ! k)"
    proof (cases "j < k")
      case True
      then show ?thesis using "1.prems"(7) k by simp
    next
      case False
      then have "lt (data ! a) (data ! k)" using k scan_down_eq_all[of lt data a i' j k] by (simp add: j'_def)
      then show ?thesis using lt by simp
    qed
  qed
  show ?case
  proof (cases "i' > j'")
    case True
    then have res: "partitionEqual_loop lt data a i j = (i', data)"
      by (subst partitionEqual_loop.simps) (simp add: Let_def i'_def j'_def)
    have ij: "i' = Suc j'" using True j' by simp
    have "partitioned_eq key a b i' (key (data ! a)) data"
      unfolding partitioned_eq_def
    proof (intro conjI allI impI)
      show "a < i'" using i' "1.prems"(2) by simp
      show "i' \<le> b" using ij j' "1.prems"(3) by simp
    next
      fix k assume k: "a \<le> k \<and> k < i'"
      then show "key (data ! k) \<le> key (data ! a)" using L[of k] by (cases "k = a") auto
    next
      fix k assume k: "i' \<le> k \<and> k < b"
      then show "key (data ! a) < key (data ! k)" using R[of k] ij by simp
    qed
    then show ?thesis by (simp add: res)
  next
    case False
    then have le: "i' \<le> j'" by simp
    let ?d = "Swap data i' j'"
    have res: "partitionEqual_loop lt data a i j = partitionEqual_loop lt ?d a (i' + 1) (j' - 1)"
      using False by (subst partitionEqual_loop.simps) (simp add: Let_def i'_def j'_def)
    have si: "lt (data ! a) (data ! i')"
      using scan_up_eq_stop[of lt data a i j] le j' by (simp add: i'_def)
    have sj: "\<not> lt (data ! a) (data ! j')"
      using scan_down_eq_stop[of i' lt data a j] le i' "1.prems"(2) by (simp add: j'_def)
    have ne: "i' \<noteq> j'" using si sj by auto
    have ai: "a < i'" using i' "1.prems"(2) by simp
    have jb: "j' < b" using j' "1.prems"(3) by simp
    have nth: "\<And>k. k < b \<Longrightarrow> ?d ! k = (if k = j' then data ! i' else if k = i' then data ! j' else data ! k)"
      using le jb "1.prems"(4) by (simp add: Swap_nth)
    have da: "?d ! a = data ! a" using nth[of a] ai le jb by simp
    have L': "\<forall>k. a < k \<and> k < i' + 1 \<longrightarrow> key (?d ! k) \<le> key (?d ! a)"
    proof (intro allI impI)
      fix k assume k: "a < k \<and> k < i' + 1"
      show "key (?d ! k) \<le> key (?d ! a)"
      proof (cases "k = i'")
        case True
        then show ?thesis using sj lt nth[of k] da le jb ne by (simp add: not_less)
      next
        case False
        then have "k < i'" using k by arith
        then show ?thesis using L[of k] k nth[of k] da le jb by simp
      qed
    qed
    have R': "\<forall>k. j' - 1 < k \<and> k < b \<longrightarrow> key (?d ! a) < key (?d ! k)"
    proof (intro allI impI)
      fix k assume k: "j' - 1 < k \<and> k < b"
      show "key (?d ! a) < key (?d ! k)"
      proof (cases "k = j'")
        case True
        then show ?thesis using si lt nth[of k] da le jb ne by simp
      next
        case False
        then have "j' < k" using k by arith
        then show ?thesis using R[of k] k nth[of k] da le jb by simp
      qed
    qed
    have IH: "perm_on a b ?d (snd (partitionEqual_loop lt ?d a (i' + 1) (j' - 1)))
         \<and> partitioned_eq key a b (fst (partitionEqual_loop lt ?d a (i' + 1) (j' - 1))) (key (?d ! a))
              (snd (partitionEqual_loop lt ?d a (i' + 1) (j' - 1)))"
      using ai jb le ne "1.prems"(4) L' R'
      by (intro "1.IH"[OF i'_def j'_def _ lt]) (auto simp: False)
    have "perm_on a b data ?d" using ai le jb "1.prems"(4) by (intro perm_on_Swap) auto
    then show ?thesis using IH by (auto simp: res da intro: perm_on_trans)
  qed
qed

lemma partitionEqual_correct:
  assumes "\<forall>x y. lt x y = (key x < key y)" "a < b" "b \<le> length data" "a \<le> pivot" "pivot < b"
  shows "perm_on a b data (snd (partitionEqual_func lt data a b pivot))
       \<and> partitioned_eq key a b (fst (partitionEqual_func lt data a b pivot)) (key (data ! pivot))
            (snd (partitionEqual_func lt data a b pivot))"
proof -
  let ?d = "Swap data a pivot"
  have da: "?d ! a = data ! pivot" using assms by (simp add: Swap_nth)
  have "perm_on a b ?d (snd (partitionEqual_loop lt ?d a (a + 1) (b - 1)))
      \<and> partitioned_eq key a b (fst (partitionEqual_loop lt ?d a (a + 1) (b - 1))) (key (?d ! a))
           (snd (partitionEqual_loop lt ?d a (a + 1) (b - 1)))"
    using assms by (intro partitionEqual_loop_correct) auto
  moreover have "perm_on a b data ?d" using assms by (intro perm_on_Swap) auto
  ultimately show ?thesis by (auto simp: partitionEqual_func_def Let_def da intro: perm_on_trans)
qed

subsection \<open>Partial insertion sort\<close>

lemma lower_bounded_perm:
  assumes "perm_on a b xs ys" "b \<le> length xs" "lower_bounded key a b xs"
  shows "lower_bounded key a b ys"
  unfolding lower_bounded_def
proof (intro impI allI)
  fix k assume a: "0 < a" and k: "a \<le> k \<and> k < b"
  have "ys ! (a - 1) = xs ! (a - 1)"
    using a k assms(2) by (intro perm_on_outside[OF assms(1)]) auto
  moreover have "key (xs ! (a - 1)) \<le> key (ys ! k)"
    using assms(3) a k
    by (intro perm_on_all[OF assms(1,2), where P = "\<lambda>x. key (xs ! (a - 1)) \<le> key x"])
       (auto simp: lower_bounded_def)
  ultimately show "key (ys ! (a - 1)) \<le> key (ys ! k)" by simp
qed

lemma shift_left_eq: "shift_left lt data j = insertion_inner lt data 0 j"
  by (induction lt data j rule: shift_left.induct)
    (subst shift_left.simps, subst insertion_inner.simps, auto)

lemma insertion_inner_from_0:
  "\<forall>x y. lt x y = (key x < key y) \<Longrightarrow> a \<le> j \<Longrightarrow> j < b \<Longrightarrow> b \<le> length data
     \<Longrightarrow> lower_bounded key a b data
     \<Longrightarrow> insertion_inner lt data 0 j = insertion_inner lt data a j"
proof (induction lt data a j rule: insertion_inner.induct)
  case (1 lt data a j)
  note lt = "1.prems"(1)
  show ?case
  proof (cases "j > a \<and> lt (data ! j) (data ! (j - 1))")
    case True
    let ?d = "Swap data j (j - 1)"
    have "perm_on a b data ?d" using True "1.prems" by (intro perm_on_Swap) auto
    then have lb: "lower_bounded key a b ?d"
      using "1.prems" by (auto intro: lower_bounded_perm)
    have "insertion_inner lt ?d 0 (j - 1) = insertion_inner lt ?d a (j - 1)"
      using True "1.prems" lb by (intro "1.IH"[OF True lt]) auto
    then show ?thesis using True by (subst (1 2) insertion_inner.simps) auto
  next
    case False
    have "\<not> (j > 0 \<and> lt (data ! j) (data ! (j - 1)))"
    proof (cases "j > a")
      case True
      then show ?thesis using False by simp
    next
      case F2: False
      then have ja: "j = a" using "1.prems"(2) by simp
      show ?thesis
      proof (cases "a = 0")
        case True
        then show ?thesis using ja by simp
      next
        case F3: False
        then have "key (data ! (a - 1)) \<le> key (data ! a)"
          using "1.prems"(3,5) ja by (simp add: lower_bounded_def)
        then show ?thesis using lt ja by (simp add: not_less)
      qed
    qed
    then show ?thesis using False by (subst (1 2) insertion_inner.simps) auto
  qed
qed

lemma scan_sorted_ge: "i \<le> scan_sorted lt data i b"
  by (induction lt data i b rule: scan_sorted.induct) (subst scan_sorted.simps, auto)

lemma scan_sorted_le: "i \<le> b \<Longrightarrow> scan_sorted lt data i b \<le> b"
  by (induction lt data i b rule: scan_sorted.induct) (subst scan_sorted.simps, auto)

lemma scan_sorted_stop:
  "scan_sorted lt data i b < b \<Longrightarrow> lt (data ! scan_sorted lt data i b) (data ! (scan_sorted lt data i b - 1))"
  by (induction lt data i b rule: scan_sorted.induct)
    (subst (asm) scan_sorted.simps, subst (1 2) scan_sorted.simps, auto)

lemma sorted_on_extend:
  assumes "sorted_on key a i xs" "a < i" "key (xs ! (i - 1)) \<le> key (xs ! i)"
  shows "sorted_on key a (i + 1) xs"
  unfolding sorted_on_def
proof (intro allI impI)
  fix x y assume h: "a \<le> x \<and> x < y \<and> y < i + 1"
  have s: "\<And>x y. a \<le> x \<Longrightarrow> x < y \<Longrightarrow> y < i \<Longrightarrow> key (xs ! x) \<le> key (xs ! y)"
    using assms(1) by (simp add: sorted_on_def)
  show "key (xs ! x) \<le> key (xs ! y)"
  proof (cases "y = i")
    case True
    show ?thesis
    proof (cases "x = i - 1")
      case True
      then show ?thesis using assms(3) \<open>y = i\<close> by simp
    next
      case False
      then have "key (xs ! x) \<le> key (xs ! (i - 1))" using h \<open>y = i\<close> by (intro s) auto
      then show ?thesis using assms(3) \<open>y = i\<close> by simp
    qed
  next
    case False
    then show ?thesis using h by (intro s) auto
  qed
qed

lemma scan_sorted_sorted:
  "\<forall>x y. lt x y = (key x < key y) \<Longrightarrow> a < i \<Longrightarrow> sorted_on key a i data
     \<Longrightarrow> sorted_on key a (scan_sorted lt data i b) data"
proof (induction lt data i b rule: scan_sorted.induct)
  case (1 lt data i b)
  show ?case
  proof (cases "i < b \<and> \<not> lt (data ! i) (data ! (i - 1))")
    case True
    then have "key (data ! (i - 1)) \<le> key (data ! i)" using "1.prems"(1) by (simp add: not_less)
    then have "sorted_on key a (i + 1) data" using "1.prems" by (intro sorted_on_extend) auto
    then have "sorted_on key a (scan_sorted lt data (i + 1) b) data"
      using "1.prems" by (intro "1.IH"[OF True]) auto
    then show ?thesis using True by (subst scan_sorted.simps) simp
  next
    case False
    then have "scan_sorted lt data i b = i" by (subst scan_sorted.simps) auto
    then show ?thesis using "1.prems"(3) by simp
  qed
qed

lemma shift_right_perm:
  "0 < j \<Longrightarrow> b \<le> length data \<Longrightarrow> perm_on (j - 1) b data (shift_right lt data j b)"
proof (induction lt data j b rule: shift_right.induct)
  case (1 lt data j b)
  show ?case
  proof (cases "j < b \<and> lt (data ! j) (data ! (j - 1))")
    case True
    let ?d = "Swap data j (j - 1)"
    have "perm_on (j + 1 - 1) b ?d (shift_right lt ?d (j + 1) b)"
      using True "1.prems" by (intro "1.IH") auto
    then have "perm_on (j - 1) b ?d (shift_right lt ?d (j + 1) b)"
      by (auto intro: perm_on_widen)
    moreover have "perm_on (j - 1) b data ?d" using True "1.prems" by (intro perm_on_Swap) auto
    ultimately show ?thesis using True by (subst shift_right.simps) (auto intro: perm_on_trans)
  next
    case False
    then show ?thesis by (subst shift_right.simps) auto
  qed
qed

lemma sorted_on_outside:
  assumes "sorted_on key a i xs" "perm_on i b xs ys" "i \<le> length xs"
  shows "sorted_on key a i ys"
  unfolding sorted_on_def
proof (intro allI impI)
  fix x y assume h: "a \<le> x \<and> x < y \<and> y < i"
  then have "ys ! x = xs ! x" "ys ! y = xs ! y"
    using assms(3) by (auto intro!: perm_on_outside[OF assms(2)])
  then show "key (ys ! x) \<le> key (ys ! y)" using assms(1) h by (simp add: sorted_on_def)
qed

lemma partialInsertionSort_loop_correct:
  "\<forall>x y. lt x y = (key x < key y) \<Longrightarrow> a < i \<Longrightarrow> i \<le> b \<Longrightarrow> b \<le> length data
     \<Longrightarrow> sorted_on key a i data \<Longrightarrow> lower_bounded key a b data
     \<Longrightarrow> perm_on a b data (snd (partialInsertionSort_loop lt data a b i steps))
         \<and> (fst (partialInsertionSort_loop lt data a b i steps)
              \<longrightarrow> sorted_on key a b (snd (partialInsertionSort_loop lt data a b i steps)))"
proof (induction steps arbitrary: data i)
  case 0
  then show ?case by simp
next
  case (Suc steps)
  note lt = Suc.prems(1)
  define i' where "i' = scan_sorted lt data i b"
  have i': "i \<le> i'" "i' \<le> b"
    unfolding i'_def using Suc.prems(3) by (auto intro: scan_sorted_ge scan_sorted_le)
  have s': "sorted_on key a i' data"
    unfolding i'_def using Suc.prems by (intro scan_sorted_sorted) auto
  show ?case
  proof (cases "i' = b")
    case True
    then show ?thesis using s' by (simp add: Let_def i'_def[symmetric])
  next
    case False
    show ?thesis
    proof (cases "b - a < 50")
      case True
      then show ?thesis using False by (simp add: Let_def i'_def[symmetric])
    next
      case F2: False
      have ib: "i' < b" using i' False by simp
      have ai: "a < i'" using i' Suc.prems(2) by simp
      define d1 where "d1 = Swap data i' (i' - 1)"
      define d2 where "d2 = (if i' - a \<ge> 2 then shift_left lt d1 (i' - 1) else d1)"
      define d3 where "d3 = (if b - i' \<ge> 2 then shift_right lt d2 (i' + 1) b else d2)"
      have res: "partialInsertionSort_loop lt data a b i (Suc steps) = partialInsertionSort_loop lt d3 a b i' steps"
        using False F2 by (simp add: Let_def i'_def[symmetric] d1_def d2_def d3_def)
      have p1: "perm_on a b data d1"
        unfolding d1_def using ai ib Suc.prems(4) by (intro perm_on_Swap) auto
      have len1: "length d1 = length data" by (simp add: d1_def)
      have lb1: "lower_bounded key a b d1"
        using p1 Suc.prems by (auto intro: lower_bounded_perm)
      have nth1: "\<And>k. k < b \<Longrightarrow> d1 ! k = (if k = i' - 1 then data ! i' else if k = i' then data ! (i' - 1) else data ! k)"
        unfolding d1_def using ib Suc.prems(4) by (simp add: Swap_nth)
      have "perm_on a i' d1 d2 \<and> sorted_on key a i' d2"
      proof (cases "i' - a \<ge> 2")
        case True
        have se: "sorted_except key a (i' - 1) i' d1"
          unfolding sorted_except_def
        proof (intro allI impI)
          fix x y assume h: "a \<le> x \<and> x < y \<and> y < i' \<and> x \<noteq> i' - 1 \<and> y \<noteq> i' - 1"
          then have "key (data ! x) \<le> key (data ! y)" using s' by (simp add: sorted_on_def)
          then show "key (d1 ! x) \<le> key (d1 ! y)" using h ib nth1[of x] nth1[of y] by simp
        qed
        have lb': "lower_bounded key a i' d1"
          using lb1 ib by (auto simp: lower_bounded_def)
        have "shift_left lt d1 (i' - 1) = insertion_inner lt d1 a (i' - 1)"
          using True ib Suc.prems(4) len1 lb' lt
          by (simp add: shift_left_eq insertion_inner_from_0[where b = i' and key = key])
        moreover have "perm_on a i' d1 (insertion_inner lt d1 a (i' - 1))
                     \<and> sorted_on key a i' (insertion_inner lt d1 a (i' - 1))"
          using True ib Suc.prems(4) len1 se by (intro insertion_inner_correct[OF lt]) auto
        ultimately show ?thesis using True by (simp add: d2_def)
      next
        case False
        then have "i' = a + 1" using ai by simp
        then show ?thesis using False by (auto simp: d2_def sorted_on_def)
      qed
      then have p2: "perm_on a i' d1 d2" and s2: "sorted_on key a i' d2" by auto
      have len2: "length d2 = length data" using p2 len1 by (auto dest: perm_on_length)
      have p3: "perm_on i' b d2 d3"
        using shift_right_perm[of "i' + 1" b d2 lt] Suc.prems(4) len2 by (simp add: d3_def)
      have s3: "sorted_on key a i' d3"
        using ib Suc.prems(4) len2 by (intro sorted_on_outside[OF s2 p3]) auto
      have p2': "perm_on a b d1 d2" using perm_on_widen[OF p2 order_refl less_imp_le[OF ib]] .
      have p3': "perm_on a b d2 d3" using perm_on_widen[OF p3 less_imp_le[OF ai] order_refl] .
      have p: "perm_on a b data d3"
        using perm_on_trans[OF perm_on_trans[OF p1 p2'] p3'] .
      have len3: "length d3 = length data" using p by (rule perm_on_length)
      have lb3: "lower_bounded key a b d3"
        using p Suc.prems by (auto intro: lower_bounded_perm)
      have IH: "perm_on a b d3 (snd (partialInsertionSort_loop lt d3 a b i' steps))
         \<and> (fst (partialInsertionSort_loop lt d3 a b i' steps)
              \<longrightarrow> sorted_on key a b (snd (partialInsertionSort_loop lt d3 a b i' steps)))"
        using ai ib Suc.prems(4) len3 s3 lb3 by (intro Suc.IH[OF lt]) auto
      then show ?thesis unfolding res using p by (auto intro: perm_on_trans)
    qed
  qed
qed

lemma partialInsertionSort_correct:
  assumes "\<forall>x y. lt x y = (key x < key y)" "a < b" "b \<le> length data" "lower_bounded key a b data"
  shows "perm_on a b data (snd (partialInsertionSort_func lt data a b))
       \<and> (fst (partialInsertionSort_func lt data a b)
            \<longrightarrow> sorted_on key a b (snd (partialInsertionSort_func lt data a b)))"
  unfolding partialInsertionSort_func_def
  using assms by (intro partialInsertionSort_loop_correct) (auto simp: sorted_on_def)

subsection \<open>Pattern breaking, reversal and the pivot\<close>

lemma bits_Len_bound: "0 < n \<Longrightarrow> 2 ^ bits_Len n \<le> 2 * n"
proof (induction n rule: bits_Len.induct)
  case (1 n)
  show ?case
  proof (cases "n div 2 = 0")
    case True
    then have "n = 1" using "1.prems" by arith
    then show ?thesis by (simp add: bits_Len.simps[of "Suc 0"] bits_Len.simps[of 0])
  next
    case False
    then have "2 ^ bits_Len (n div 2) \<le> 2 * (n div 2)" using "1.IH" "1.prems" by simp
    then show ?thesis using "1.prems" by (subst bits_Len.simps) simp
  qed
qed

lemma masked_bound: "unat (r AND (nextPowerOfTwo n - 1)) < 2 ^ bits_Len n"
proof -
  have "nextPowerOfTwo n - 1 = (mask (bits_Len n) :: 64 word)"
    by (simp add: nextPowerOfTwo_def mask_eq_exp_minus_1)
  then have "r AND (nextPowerOfTwo n - 1) = take_bit (bits_Len n) r"
    by (simp add: take_bit_eq_mask)
  then have "unat (r AND (nextPowerOfTwo n - 1)) = take_bit (bits_Len n) (unat r)"
    by (simp add: unsigned_take_bit_eq)
  then show ?thesis by (simp add: take_bit_eq_mod)
qed

lemma breakPatterns_loop_perm:
  "a + len \<le> length data \<Longrightarrow> 0 < len \<Longrightarrow> modulus = nextPowerOfTwo len
     \<Longrightarrow> \<forall>i\<in>set is. a \<le> idx + i \<and> idx + i < a + len
     \<Longrightarrow> perm_on a (a + len) data (breakPatterns_loop data a len idx random modulus is)"
proof (induction "is" arbitrary: data random)
  case Nil
  then show ?case by simp
next
  case (Cons i "is")
  define r where "r = xorshift_Next random"
  define other where "other = unat (r AND (modulus - 1))"
  define other' where "other' = (if other \<ge> len then other - len else other)"
  have "other < 2 ^ bits_Len len" unfolding other_def Cons.prems(3) by (rule masked_bound)
  then have "other < 2 * len" using bits_Len_bound[OF Cons.prems(2)] by simp
  then have o: "other' < len" using Cons.prems(2) by (auto simp: other'_def)
  let ?d = "Swap data (idx + i) (a + other')"
  have p: "perm_on a (a + len) data ?d"
    using Cons.prems o by (intro perm_on_Swap) auto
  have "perm_on a (a + len) ?d (breakPatterns_loop ?d a len idx r modulus is)"
    using Cons.prems by (intro Cons.IH) auto
  then show ?case
    using p by (auto simp: Let_def r_def other_def other'_def intro: perm_on_trans)
qed

lemma breakPatterns_perm:
  assumes "a \<le> b" "b \<le> length data"
  shows "perm_on a b data (breakPatterns_func data a b)"
proof (cases "b - a \<ge> 8")
  case True
  define len where "len = b - a"
  have ab: "a + len = b" using assms by (simp add: len_def)
  have "perm_on a (a + len) data
     (breakPatterns_loop data a len (a + (len div 4) * 2 - 1) (word_of_nat len) (nextPowerOfTwo len) [0, 1, 2])"
    using True assms ab by (intro breakPatterns_loop_perm) (auto simp: len_def)
  then show ?thesis using True ab by (simp add: breakPatterns_func_def Let_def len_def)
next
  case False
  then show ?thesis by (simp add: breakPatterns_func_def Let_def)
qed

lemma reverseRange_loop_perm:
  "a \<le> i \<Longrightarrow> j < b \<Longrightarrow> b \<le> length data \<Longrightarrow> perm_on a b data (reverseRange_loop data i j)"
proof (induction data i j rule: reverseRange_loop.induct)
  case (1 data i j)
  show ?case
  proof (cases "i < j")
    case True
    let ?d = "Swap data i j"
    have "perm_on a b ?d (reverseRange_loop ?d (i + 1) (j - 1))"
      using True "1.prems" by (intro "1.IH") auto
    moreover have "perm_on a b data ?d" using True "1.prems" by (intro perm_on_Swap) auto
    ultimately show ?thesis using True by (subst reverseRange_loop.simps) (auto intro: perm_on_trans)
  next
    case False
    then show ?thesis by (subst reverseRange_loop.simps) auto
  qed
qed

lemma reverseRange_perm:
  "a < b \<Longrightarrow> b \<le> length data \<Longrightarrow> perm_on a b data (reverseRange_func data a b)"
  unfolding reverseRange_func_def by (intro reverseRange_loop_perm) auto

lemma median_fst:
  "fst (median_func lt data x y z s) = x \<or> fst (median_func lt data x y z s) = y
   \<or> fst (median_func lt data x y z s) = z"
  by (simp add: median_func_def order2_func_def)

lemma medianAdjacent_fst:
  "medianAdjacent_func lt data x s = (m, s') \<Longrightarrow> m = x - 1 \<or> m = x \<or> m = x + 1"
  using median_fst[of lt data "x - 1" x "x + 1" s] by (auto simp: medianAdjacent_func_def)

lemma choosePivot_bounds:
  assumes "12 < b - a"
  shows "a \<le> fst (choosePivot_func lt data a b) \<and> fst (choosePivot_func lt data a b) < b"
proof -
  define q where "q = (b - a) div 4"
  have q: "3 \<le> q" "a + 3 * q < b" using assms by (auto simp: q_def)
  show ?thesis
  proof (cases "b - a \<ge> 50")
    case True
    then have q12: "12 \<le> q" "a + 3 * q + 1 < b" by (auto simp: q_def)
    obtain i s1 where m1: "medianAdjacent_func lt data (a + q) 0 = (i, s1)" by force
    obtain j s2 where m2: "medianAdjacent_func lt data (a + q * 2) s1 = (j, s2)" by force
    obtain k s3 where m3: "medianAdjacent_func lt data (a + q * 3) s2 = (k, s3)" by force
    obtain m s4 where m4: "median_func lt data i j k s3 = (m, s4)" by force
    have i: "a \<le> i \<and> i < b" using medianAdjacent_fst[OF m1] q12 by auto
    have j: "a \<le> j \<and> j < b" using medianAdjacent_fst[OF m2] q12 by auto
    have k: "a \<le> k \<and> k < b" using medianAdjacent_fst[OF m3] q12 by auto
    have "fst (choosePivot_func lt data a b) = m"
      using True m1 m2 m3 m4 unfolding choosePivot_func_def Let_def q_def by simp
    then show ?thesis using median_fst[of lt data i j k s3] m4 i j k by auto
  next
    case False
    obtain m s4 where m4: "median_func lt data (a + q) (a + q * 2) (a + q * 3) 0 = (m, s4)" by force
    have "fst (choosePivot_func lt data a b) = m"
      using False assms m4 unfolding choosePivot_func_def Let_def q_def by simp
    then show ?thesis using median_fst[of lt data "a + q" "a + q * 2" "a + q * 3" 0] m4 q by auto
  qed
qed

subsection \<open>The main loop\<close>

lemma partitioned_perm_left:
  assumes "partitioned key a b mid xs" "perm_on a mid xs ys" "b \<le> length xs"
  shows "partitioned key a b mid ys"
proof -
  have m: "a \<le> mid" "mid < b" using assms(1) by (auto simp: partitioned_def)
  have same: "\<And>k. mid \<le> k \<Longrightarrow> k < b \<Longrightarrow> ys ! k = xs ! k"
    using assms(3) by (auto intro!: perm_on_outside[OF assms(2)])
  have left: "\<And>k. a \<le> k \<Longrightarrow> k < mid \<Longrightarrow> key (ys ! k) < key (xs ! mid)"
    using assms(1) m assms(3)
    by (intro perm_on_all[OF assms(2), where P = "\<lambda>x. key x < key (xs ! mid)"])
       (auto simp: partitioned_def)
  show ?thesis
    unfolding partitioned_def
  proof (intro conjI allI impI)
    show "a \<le> mid" "mid < b" using m by auto
  next
    fix k assume "a \<le> k \<and> k < mid"
    then show "key (ys ! k) < key (ys ! mid)" using left[of k] same[of mid] m by simp
  next
    fix k assume "mid < k \<and> k < b"
    then show "key (ys ! mid) \<le> key (ys ! k)"
      using same[of mid] same[of k] m assms(1) by (simp add: partitioned_def)
  qed
qed

lemma partitioned_perm_right:
  assumes "partitioned key a b mid xs" "perm_on (mid + 1) b xs ys" "b \<le> length xs"
  shows "partitioned key a b mid ys"
proof -
  have m: "a \<le> mid" "mid < b" using assms(1) by (auto simp: partitioned_def)
  have same: "\<And>k. k \<le> mid \<Longrightarrow> ys ! k = xs ! k"
    using assms(3) m by (auto intro!: perm_on_outside[OF assms(2)])
  have right: "\<And>k. mid + 1 \<le> k \<Longrightarrow> k < b \<Longrightarrow> key (xs ! mid) \<le> key (ys ! k)"
    using assms(1) m assms(3)
    by (intro perm_on_all[OF assms(2), where P = "\<lambda>x. key (xs ! mid) \<le> key x"])
       (auto simp: partitioned_def)
  show ?thesis
    unfolding partitioned_def
  proof (intro conjI allI impI)
    show "a \<le> mid" "mid < b" using m by auto
  next
    fix k assume "a \<le> k \<and> k < mid"
    then show "key (ys ! k) < key (ys ! mid)"
      using same[of mid] same[of k] assms(1) by (simp add: partitioned_def)
  next
    fix k assume "mid < k \<and> k < b"
    then show "key (ys ! mid) \<le> key (ys ! k)" using right[of k] same[of mid] by simp
  qed
qed

lemma sorted_join:
  assumes "partitioned key a b mid zs" "sorted_on key a mid zs" "sorted_on key (mid + 1) b zs"
  shows "sorted_on key a b zs"
  unfolding sorted_on_def
proof (intro allI impI)
  fix x y assume h: "a \<le> x \<and> x < y \<and> y < b"
  have l: "\<And>k. a \<le> k \<Longrightarrow> k < mid \<Longrightarrow> key (zs ! k) \<le> key (zs ! mid)"
    using assms(1) by (auto simp: partitioned_def less_imp_le)
  have r: "\<And>k. mid < k \<Longrightarrow> k < b \<Longrightarrow> key (zs ! mid) \<le> key (zs ! k)"
    using assms(1) by (auto simp: partitioned_def)
  consider "y < mid" | "y = mid" | "x < mid" "mid < y" | "x = mid" | "mid < x" by arith
  then show "key (zs ! x) \<le> key (zs ! y)"
  proof cases
    case 1
    then show ?thesis using assms(2) h by (simp add: sorted_on_def)
  next
    case 2
    then show ?thesis using l[of x] h by simp
  next
    case 3
    then show ?thesis using l[of x] r[of y] h by (meson order_trans)
  next
    case 4
    then show ?thesis using r[of y] h by simp
  next
    case 5
    then show ?thesis using assms(3) h by (simp add: sorted_on_def)
  qed
qed

lemma sorted_on_unchanged:
  assumes "sorted_on key a b xs" "\<And>k. a \<le> k \<Longrightarrow> k < b \<Longrightarrow> ys ! k = xs ! k"
  shows "sorted_on key a b ys"
  using assms by (auto simp: sorted_on_def)

lemma lower_bounded_restrict:
  "lower_bounded key a b xs \<Longrightarrow> b' \<le> b \<Longrightarrow> lower_bounded key a b' xs"
  by (auto simp: lower_bounded_def)

lemma pdqsort_correct:
  "\<forall>x y. lt x y = (key x < key y) \<Longrightarrow> a \<le> b \<Longrightarrow> b \<le> length data \<Longrightarrow> lower_bounded key a b data
     \<Longrightarrow> perm_on a b data (pdqsort_func lt data a b limit wasBalanced wasPartitioned)
         \<and> sorted_on key a b (pdqsort_func lt data a b limit wasBalanced wasPartitioned)"
proof (induction lt data a b limit wasBalanced wasPartitioned rule: pdqsort_func.induct)
  case (1 lt data a b limit wb wp)
  note lt = "1.prems"(1)
  note len = "1.prems"(3)
  show ?case
  proof (cases "b - a \<le> 12")
    case True
    then show ?thesis
      using insertionSort_correct[OF lt len, of a] by (subst (1 2) pdqsort_func.simps) simp
  next
    case n12: False
    then have ab: "a < b" "12 < b - a" by auto
    show ?thesis
    proof (cases "limit = 0")
      case True
      then show ?thesis
        using n12 heapSort_correct[OF lt "1.prems"(2) len] by (subst (1 2) pdqsort_func.simps) simp
    next
      case l0: False
      define p1 where "p1 = (if \<not> wb then (breakPatterns_func data a b, limit - 1) else (data, limit))"
      define d1 where "d1 = fst p1"
      define l1 where "l1 = snd p1"
      define cp where "cp = choosePivot_func lt d1 a b"
      define pivot0 where "pivot0 = fst cp"
      define hint0 where "hint0 = snd cp"
      define r3 where "r3 = (if hint0 = decreasingHint
              then (reverseRange_func d1 a b, (b - 1) - (pivot0 - a), increasingHint)
              else (d1, pivot0, hint0))"
      define d2 where "d2 = fst r3"
      define pivot where "pivot = fst (snd r3)"
      define hint where "hint = snd (snd r3)"
      define ps where "ps = (if wb \<and> wp \<and> hint = increasingHint
              then partialInsertionSort_func lt d2 a b else (False, d2))"
      define srt where "srt = fst ps"
      define d3 where "d3 = snd ps"
      define pe where "pe = partitionEqual_func lt d3 a b pivot"
      define pt where "pt = partition_func lt d3 a b pivot"
      define mid where "mid = fst pt"
      define ap where "ap = fst (snd pt)"
      define d4 where "d4 = snd (snd pt)"
      note defs = p1_def d1_def l1_def cp_def pivot0_def hint0_def r3_def d2_def pivot_def hint_def
        ps_def srt_def d3_def pe_def pt_def mid_def ap_def d4_def
      have e1: "(d1, l1) = (if \<not> wb then (breakPatterns_func data a b, limit - 1) else (data, limit))"
        by (simp add: d1_def l1_def p1_def)
      have e2: "(pivot0, hint0) = choosePivot_func lt d1 a b"
        by (simp add: pivot0_def hint0_def cp_def)
      have e3: "(d2, (pivot, hint)) = (if hint0 = decreasingHint
              then (reverseRange_func d1 a b, (b - 1) - (pivot0 - a), increasingHint)
              else (d1, pivot0, hint0))"
        by (simp add: d2_def pivot_def hint_def r3_def)
      have e4: "(pivot, hint) = (pivot, hint)" by simp
      have e5: "(srt, d3) = (if wb \<and> wp \<and> hint = increasingHint
              then partialInsertionSort_func lt d2 a b else (False, d2))"
        by (simp add: srt_def d3_def ps_def)
      have e6: "(fst pe, snd pe) = partitionEqual_func lt d3 a b pivot" by (simp add: pe_def)
      have e7: "(mid, (ap, d4)) = partition_func lt d3 a b pivot" by (simp add: mid_def ap_def d4_def pt_def)
      have e8: "(ap, d4) = (ap, d4)" by simp
      have unfold: "pdqsort_func lt data a b limit wb wp =
          (if srt then d3
           else if a > 0 \<and> \<not> lt (d3 ! (a - 1)) (d3 ! pivot)
                then pdqsort_func lt (snd pe) (fst pe) b l1 wb wp
           else if mid - a < b - mid
                then pdqsort_func lt (pdqsort_func lt d4 a mid l1 True True) (mid + 1) b l1
                       (mid - a \<ge> (b - a) div 8) ap
           else pdqsort_func lt (pdqsort_func lt d4 (mid + 1) b l1 True True) a mid l1
                       (b - mid \<ge> (b - a) div 8) ap)"
        using n12 l0 unfolding defs by (subst pdqsort_func.simps) (simp add: case_prod_beta)
      have P1: "perm_on a b data d1"
        using breakPatterns_perm[OF "1.prems"(2) len] by (simp add: d1_def p1_def)
      have len1: "length d1 = length data" using P1 by (rule perm_on_length)
      have pv0: "a \<le> pivot0 \<and> pivot0 < b"
        using choosePivot_bounds[OF ab(2), of lt d1] by (simp add: pivot0_def cp_def)
      have P2: "perm_on a b d1 d2"
        using reverseRange_perm[OF ab(1), of d1] len len1 by (simp add: d2_def r3_def)
      have pv: "a \<le> pivot \<and> pivot < b"
        using pv0 ab by (auto simp: pivot_def r3_def)
      have P12: "perm_on a b data d2" using P1 P2 by (rule perm_on_trans)
      have len2: "length d2 = length data" using P12 by (rule perm_on_length)
      have lb2: "lower_bounded key a b d2" using lower_bounded_perm[OF P12 len "1.prems"(4)] .
      have pis: "perm_on a b d2 d3 \<and> (srt \<longrightarrow> sorted_on key a b d3)"
        using partialInsertionSort_correct[OF lt ab(1) _ lb2] len len2
        by (simp add: srt_def d3_def ps_def)
      have P: "perm_on a b data d3" using P12 pis by (blast intro: perm_on_trans)
      have len3: "length d3 = length data" using P by (rule perm_on_length)
      have lb3: "lower_bounded key a b d3" using lower_bounded_perm[OF P len "1.prems"(4)] .
      show ?thesis
      proof (cases srt)
        case True
        then show ?thesis using P pis by (simp add: unfold)
      next
        case ns: False
        show ?thesis
        proof (cases "a > 0 \<and> \<not> lt (d3 ! (a - 1)) (d3 ! pivot)")
          case eq: True
          define mide where "mide = fst pe"
          define d4e where "d4e = snd pe"
          define p where "p = key (d3 ! pivot)"
          have pec: "perm_on a b d3 d4e \<and> partitioned_eq key a b mide p d4e"
            using partitionEqual_correct[OF lt ab(1) _ _ _, of d3 pivot] pv len len3
            by (simp add: mide_def d4e_def pe_def p_def)
          then have pq: "a < mide" "mide \<le> b"
            and le_p: "\<And>k. a \<le> k \<Longrightarrow> k < mide \<Longrightarrow> key (d4e ! k) \<le> p"
            and gt_p: "\<And>k. mide \<le> k \<Longrightarrow> k < b \<Longrightarrow> p < key (d4e ! k)"
            by (auto simp: partitioned_eq_def)
          have len4: "length d4e = length data" using pec len3 by (auto dest: perm_on_length)
          have pa: "p \<le> key (d3 ! (a - 1))" using eq lt by (simp add: p_def not_less)
          have ge_p: "\<And>k. a \<le> k \<Longrightarrow> k < b \<Longrightarrow> p \<le> key (d4e ! k)"
          proof -
            fix k assume k: "a \<le> k" "k < b"
            have "\<forall>i. a \<le> i \<and> i < b \<longrightarrow> p \<le> key (d3 ! i)"
              using lb3 eq pa by (auto simp: lower_bounded_def intro: order_trans)
            then show "p \<le> key (d4e ! k)"
              using k len len3 pec
              by (intro perm_on_all[of a b d3 d4e "\<lambda>x. p \<le> key x"]) auto
          qed
          have lbe: "lower_bounded key mide b d4e"
            unfolding lower_bounded_def
          proof (intro impI allI)
            fix k assume "0 < mide" and k: "mide \<le> k \<and> k < b"
            have "key (d4e ! (mide - 1)) \<le> p" using pq by (intro le_p) auto
            moreover have "p < key (d4e ! k)" using k by (intro gt_p) auto
            ultimately show "key (d4e ! (mide - 1)) \<le> key (d4e ! k)" by simp
          qed
          define res where "res = pdqsort_func lt d4e mide b l1 wb wp"
          have IH: "perm_on mide b d4e res \<and> sorted_on key mide b res"
            unfolding res_def mide_def d4e_def
            using "1.IH"(1)[OF n12 l0 e1 e2 e3 e4 e5 _ eq e6 lt] ns pq len len4 lbe
            by (simp add: mide_def d4e_def)
          have same: "\<And>k. k < mide \<Longrightarrow> res ! k = d4e ! k"
            using IH pq len len4 by (auto intro!: perm_on_outside)
          have res_gt: "\<And>k. mide \<le> k \<Longrightarrow> k < b \<Longrightarrow> p < key (res ! k)"
          proof -
            fix k assume k: "mide \<le> k" "k < b"
            have "\<forall>i. mide \<le> i \<and> i < b \<longrightarrow> p < key (d4e ! i)" using gt_p by simp
            then show "p < key (res ! k)"
              using k len len4 IH
              by (intro perm_on_all[of mide b d4e res "\<lambda>x. p < key x"]) auto
          qed
          have "sorted_on key a b res"
            unfolding sorted_on_def
          proof (intro allI impI)
            fix x y assume h: "a \<le> x \<and> x < y \<and> y < b"
            consider "y < mide" | "x < mide" "mide \<le> y" | "mide \<le> x" by arith
            then show "key (res ! x) \<le> key (res ! y)"
            proof cases
              case 1
              have "key (d4e ! x) \<le> p" using h 1 by (intro le_p) auto
              moreover have "p \<le> key (d4e ! y)" using h by (intro ge_p) auto
              ultimately show ?thesis using same[of x] same[of y] 1 h by simp
            next
              case 2
              have "key (d4e ! x) \<le> p" using h 2 by (intro le_p) auto
              moreover have "p < key (res ! y)" using h 2 by (intro res_gt) auto
              ultimately show ?thesis using same[of x] 2 by simp
            next
              case 3
              then show ?thesis using IH h by (simp add: sorted_on_def)
            qed
          qed
          moreover have "perm_on a b data res"
          proof -
            have "perm_on a b d4e res" using IH pq by (blast intro: perm_on_widen less_imp_le order_refl)
            then show ?thesis using P pec by (blast intro: perm_on_trans)
          qed
          ultimately show ?thesis using ns eq by (simp add: unfold res_def mide_def d4e_def)
        next
          case ne: False
          have ptc: "perm_on a b d3 d4 \<and> partitioned key a b mid d4"
            using partition_func_correct[OF lt ab(1) _ _ _, of d3 pivot] pv len len3
            by (simp add: mid_def d4_def pt_def)
          then have m: "a \<le> mid" "mid < b" by (auto simp: partitioned_def)
          have P4: "perm_on a b data d4" using P ptc by (blast intro: perm_on_trans)
          have len4: "length d4 = length data" using P4 by (rule perm_on_length)
          have lb4: "lower_bounded key a b d4" using lower_bounded_perm[OF P4 len "1.prems"(4)] .
          show ?thesis
          proof (cases "mid - a < b - mid")
            case left: True
            define r1 where "r1 = pdqsort_func lt d4 a mid l1 True True"
            define r2 where "r2 = pdqsort_func lt r1 (mid + 1) b l1 (mid - a \<ge> (b - a) div 8) ap"
            have IH1: "perm_on a mid d4 r1 \<and> sorted_on key a mid r1"
              unfolding r1_def
              using "1.IH"(2)[OF n12 l0 e1 e2 e3 e4 e5 _ ne e7 e8 left lt] ns m len len4
                lower_bounded_restrict[OF lb4, of mid]
              by simp
            have lenr1: "length r1 = length data" using IH1 len4 by (auto dest: perm_on_length)
            have pr1: "partitioned key a b mid r1"
              using partitioned_perm_left[of key a b mid d4 r1] ptc IH1 len len4 by simp
            have lbr1: "lower_bounded key (mid + 1) b r1"
              using pr1 by (auto simp: lower_bounded_def partitioned_def)
            have IH2: "perm_on (mid + 1) b r1 r2 \<and> sorted_on key (mid + 1) b r2"
              unfolding r2_def r1_def
              using "1.IH"(3)[OF n12 l0 e1 e2 e3 e4 e5 _ ne e7 e8 left lt] ns m len lenr1 lbr1
              by (simp add: r1_def)
            have pr2: "partitioned key a b mid r2"
              using partitioned_perm_right[of key a b mid r1 r2] pr1 IH2 len lenr1 by simp
            have s1: "sorted_on key a mid r2"
              using IH1 IH2 m len lenr1
              by (intro sorted_on_unchanged[of key a mid r1 r2]) (auto intro!: perm_on_outside)
            have "sorted_on key a b r2" using sorted_join[OF pr2 s1] IH2 by simp
            moreover have "perm_on a b data r2"
            proof -
              have "perm_on a b d4 r1" using IH1 m by (blast intro: perm_on_widen less_imp_le order_refl)
              moreover have "perm_on a b r1 r2" using IH2 m by (blast intro: perm_on_widen order_refl le_add1 trans_le_add1)
              ultimately show ?thesis using P4 by (blast intro: perm_on_trans)
            qed
            ultimately show ?thesis using ns ne left by (auto simp: unfold r1_def r2_def)
          next
            case right: False
            define r1 where "r1 = pdqsort_func lt d4 (mid + 1) b l1 True True"
            define r2 where "r2 = pdqsort_func lt r1 a mid l1 (b - mid \<ge> (b - a) div 8) ap"
            have lb4r: "lower_bounded key (mid + 1) b d4"
              using ptc by (auto simp: lower_bounded_def partitioned_def)
            have IH1: "perm_on (mid + 1) b d4 r1 \<and> sorted_on key (mid + 1) b r1"
              unfolding r1_def
              using "1.IH"(4)[OF n12 l0 e1 e2 e3 e4 e5 _ ne e7 e8 right lt] ns m len len4 lb4r
              by simp
            have lenr1: "length r1 = length data" using IH1 len4 by (auto dest: perm_on_length)
            have pr1: "partitioned key a b mid r1"
              using partitioned_perm_right[of key a b mid d4 r1] ptc IH1 len len4 by simp
            have "perm_on a b d4 r1" using IH1 m by (blast intro: perm_on_widen order_refl le_add1 trans_le_add1)
            then have "lower_bounded key a b r1"
              using lower_bounded_perm[of a b d4 r1 key] lb4 len len4 by simp
            then have lbr1: "lower_bounded key a mid r1"
              using m by (auto intro: lower_bounded_restrict)
            have IH2: "perm_on a mid r1 r2 \<and> sorted_on key a mid r2"
              unfolding r2_def r1_def
              using "1.IH"(5)[OF n12 l0 e1 e2 e3 e4 e5 _ ne e7 e8 right lt] ns m len lenr1 lbr1
              by (simp add: r1_def)
            have pr2: "partitioned key a b mid r2"
              using partitioned_perm_left[of key a b mid r1 r2] pr1 IH2 len lenr1 by simp
            have s1: "sorted_on key (mid + 1) b r2"
              using IH1 IH2 m len lenr1
              by (intro sorted_on_unchanged[of key "mid + 1" b r1 r2]) (auto intro!: perm_on_outside)
            have "sorted_on key a b r2" using sorted_join[OF pr2 _ s1] IH2 by simp
            moreover have "perm_on a b data r2"
            proof -
              have "perm_on a b d4 r1" using IH1 m by (blast intro: perm_on_widen order_refl le_add1 trans_le_add1)
              moreover have "perm_on a b r1 r2" using IH2 m by (blast intro: perm_on_widen less_imp_le order_refl)
              ultimately show ?thesis using P4 by (blast intro: perm_on_trans)
            qed
            ultimately show ?thesis using ns ne right by (auto simp: unfold r1_def r2_def)
          qed
        qed
      qed
    qed
  qed
qed

subsection \<open>sort.Slice\<close>

lemma sort_Slice_correct:
  assumes "\<forall>x y. lt x y = (key x < key y)"
  shows "mset (sort_Slice lt xs) = mset xs \<and> sorted (map key (sort_Slice lt xs))"
proof -
  let ?r = "sort_Slice lt xs"
  have c: "perm_on 0 (length xs) xs ?r \<and> sorted_on key 0 (length xs) ?r"
    unfolding sort_Slice_def using assms by (intro pdqsort_correct) (auto simp: lower_bounded_def)
  then have len: "length ?r = length xs" by (auto dest: perm_on_length)
  have "sorted (map key ?r)"
    using c len by (auto simp: sorted_iff_nth_mono_less sorted_on_def)
  then show ?thesis using c by (auto dest: perm_on_mset)
qed

section \<open>Rendering: proofs\<close>

lemma content_loop_eq:
  "content_loop content results = content @ concat (map (\<lambda>r. host_line r @ newline) results)"
  by (induction results arbitrary: content) (simp_all add: Let_def host_line_def Sprintf_host_def)

lemma Fprintf_lines_eq:
  "Fprintf_lines writer results = writer @ concat (map (\<lambda>r. host_line r @ newline) results)"
  by (induction results arbitrary: writer) (simp_all add: Let_def host_line_def Sprintf_host_def)

lemma GenerateHostsContent_eq:
  "GenerateHostsContent currentTime results =
     header currentTime @ concat (map (\<lambda>r. host_line r @ newline) results)"
  by (simp add: GenerateHostsContent_def header_def content_loop_eq)

section \<open>Rendered text (C6, C10)\<close>

text \<open>
  C6, as amended. The rendered text is the header followed by one entry per result:
  the IP (or the not-found marker the result carries in its place) padded on the right
  with spaces to 30 characters, a space, the domain, the comment \<open># Timeout\<close> exactly when
  the latency is at least the timeout value, and a newline. The field is wider than 30
  only for an IP text of more than 30 characters.
\<close>

theorem GenerateHostsContent_format:
  "GenerateHostsContent currentTime results =
     header currentTime
     @ concat (map (\<lambda>r. IP r @ replicate (30 - RuneCountInString (IP r)) CHR '' '' @ '' '' @ Domain r
                         @ (if Ping r \<ge> timeout_ms then ''  # Timeout'' else []) @ newline) results)"
  by (simp add: GenerateHostsContent_eq host_line_def)

lemma RuneCount_example: "RuneCountInString ''10.0.0.1'' = 8"
  by code_simp

text \<open>
  C6 as stated fails: a result whose latency is 1500, which is not the timeout value
  1000, is rendered with the timeout comment.
\<close>

theorem timeout_mark_counterexample:
  "GenerateHostsContent ''2025-08-28 14:46:48''
      [\<lparr>Domain = ''a.example'', IP = ''10.0.0.1'', Ping = 1500, Error = []\<rparr>]
    = header ''2025-08-28 14:46:48''
      @ ''10.0.0.1'' @ replicate 22 CHR '' '' @ '' a.example  # Timeout'' @ newline
    \<and> (1500::rat) \<noteq> timeout_ms"
  by (simp add: GenerateHostsContent_eq host_line_def RuneCount_example timeout_ms_def PingTimeoutSec_def)

text \<open>
  C10. When the output file can be created, the text WriteHostsFile leaves in it is the
  string GenerateHostsContent returns for the same results and timestamp; when it cannot,
  the error is returned and nothing is written.
\<close>

theorem WriteHostsFile_same_text:
  "WriteHostsFile True currentTime results = (None, Some (GenerateHostsContent currentTime results))
   \<and> WriteHostsFile False currentTime results = (Some CreateFailed, None)"
  by (simp add: WriteHostsFile_def Fprintf_lines_eq GenerateHostsContent_eq header_def)

section \<open>getIPFromDNS (C7)\<close>

lemma answer_loop_eq: "answer_loop allIPs answer = allIPs @ addresses_of (Inr answer)"
  by (induction allIPs answer rule: answer_loop.induct) (simp_all add: addresses_of_def)

lemma server_loop_eq:
  "server_loop exchange [] servers =
     (case find (\<lambda>server. addresses_of (exchange server) \<noteq> []) servers of
        None \<Rightarrow> []
      | Some server \<Rightarrow> addresses_of (exchange server))"
proof (induction servers)
  case Nil
  then show ?case by simp
next
  case (Cons server servers)
  show ?case
  proof (cases "exchange server")
    case (Inl err)
    then show ?thesis using Cons by (simp add: addresses_of_def)
  next
    case (Inr answer)
    then show ?thesis using Cons by (simp add: answer_loop_eq Let_def)
  qed
qed

text \<open>
  C7. getIPFromDNS never returns an error. Its list is the A-record addresses of the
  first resolver, in the order of DNSServers, whose query succeeded with at least one A
  record: resolvers that fail or give no address are passed over, later resolvers add
  nothing, and the list is empty when no resolver qualifies.
\<close>

theorem getIPFromDNS_first_success:
  "getIPFromDNS e domain =
     (case find (\<lambda>server. addresses_of (dns_Exchange e domain server) \<noteq> []) DNSServers of
        None \<Rightarrow> []
      | Some server \<Rightarrow> addresses_of (dns_Exchange e domain server),
      None)"
  by (simp add: getIPFromDNS_def server_loop_eq)

section \<open>pingCached (C3, C4)\<close>

text \<open>
  C4, as amended. On a cache miss the measurement is the timeout value when the pinger
  cannot be created, when the run returns an error (whether or not replies came in) or
  when no reply came in. Otherwise, when the number of replies is odd, it is the median
  of their round-trip times.
\<close>

theorem pingCached_miss_measurement:
  assumes "PingCache ip = None"
  shows "(\<not> NewPinger_ok e ip \<or> run_err (pinger_Run e ip) \<or> replies (pinger_Run e ip) = []
            \<longrightarrow> fst (pingCached e PingCache ip) = timeout_ms)
       \<and> (NewPinger_ok e ip \<and> \<not> run_err (pinger_Run e ip) \<and> odd (length (replies (pinger_Run e ip)))
            \<longrightarrow> fst (pingCached e PingCache ip) = median_spec (replies (pinger_Run e ip)))"
proof (intro conjI impI)
  assume "\<not> NewPinger_ok e ip \<or> run_err (pinger_Run e ip) \<or> replies (pinger_Run e ip) = []"
  then show "fst (pingCached e PingCache ip) = timeout_ms"
    using assms by (auto simp: pingCached_def probe_and_store_def Let_def)
next
  assume a: "NewPinger_ok e ip \<and> \<not> run_err (pinger_Run e ip) \<and> odd (length (replies (pinger_Run e ip)))"
  then have "replies (pinger_Run e ip) \<noteq> []" by auto
  then show "fst (pingCached e PingCache ip) = median_spec (replies (pinger_Run e ip))"
    using assms a by (simp add: pingCached_def probe_and_store_def Let_def median_spec_def)
qed

text \<open>
  Three replies of 30, 10 and 20 ms on an empty cache: the measurement is 20. No reply
  at all: the measurement is 1000.
\<close>

theorem pingCached_miss_measurement_witness:
  "(Map.empty :: string \<rightharpoonup> rat) ''10.0.0.1'' = None
   \<and> fst (pingCached (env0\<lparr>pinger_Run := (\<lambda>ip. \<lparr>run_err = False, replies = [30, 10, 20]\<rparr>)\<rparr>)
            Map.empty ''10.0.0.1'') = 20
   \<and> fst (pingCached env0 Map.empty ''10.0.0.1'') = 1000"
  using pingCached_miss_measurement[of Map.empty "''10.0.0.1''"
      "env0\<lparr>pinger_Run := (\<lambda>ip. \<lparr>run_err = False, replies = [30, 10, 20]\<rparr>)\<rparr>"]
    pingCached_miss_measurement[of Map.empty "''10.0.0.1''" env0]
  by (simp add: env0_def median_spec_def timeout_ms_def PingTimeoutSec_def)

text \<open>
  C4 as stated fails when the run ends with an error after replies came in: the test
  \<open>err != nil\<close> comes first, so a run that returns an error after one reply of 5 ms gives
  the timeout value 1000, not the median 5 of the replies received.
\<close>

theorem run_error_counterexample:
  "fst (pingCached (env0\<lparr>pinger_Run := (\<lambda>ip. \<lparr>run_err = True, replies = [5]\<rparr>)\<rparr>)
          Map.empty ''10.0.0.1'') = 1000
   \<and> median_spec [5] = 5"
  by (simp add: pingCached_def probe_and_store_def env0_def median_spec_def timeout_ms_def PingTimeoutSec_def)

text \<open>
  The comment on the last step of pingCached says that it sorts and takes the median,
  and the variable is named \<open>median\<close>. With an even number of replies the sample at
  index \<open>n div 2\<close> is the upper of the two middle ones: replies of 10 and 20 ms give 20,
  and their median is 15.
\<close>

lemma pingCached_two_replies:
  "fst (pingCached (env0\<lparr>pinger_Run := (\<lambda>ip. \<lparr>run_err = False, replies = [10, 20]\<rparr>)\<rparr>)
          Map.empty ''10.0.0.1'') = 20
   \<and> median_spec [10, 20] = 15"
  by (simp add: pingCached_def probe_and_store_def env0_def median_spec_def)

text \<open>
  C3 fails for calls that overlap, as the calls of the concurrent per-domain tasks do.
  The lookup and the store each hold the mutex, the probe between them does not, and
  nothing makes a caller wait for a probe in flight. Two calls for one address that both
  look it up before either has stored a result both run a probe, and they return 5 and
  7. With a third call that starts after the second has returned 5, the first call
  stores its 7 over the 5 and the third call returns 7: two probes for one address, and
  a later call whose measurement differs from the one an earlier call returned.
\<close>

theorem pingCached_overlapping_calls:
  "run_schedule ''10.0.0.1'' [(env_rtt 5, 0), (env_rtt 7, 1), (env_rtt 5, 0), (env_rtt 7, 1)]
     \<lparr>cache = Map.empty, calls = [Called, Called], probes = 0\<rparr>
   = \<lparr>cache = [''10.0.0.1'' \<mapsto> 7], calls = [Returned 5, Returned 7], probes = 2\<rparr>
   \<and> run_schedule ''10.0.0.1''
       [(env_rtt 7, 0), (env_rtt 5, 1), (env_rtt 5, 1), (env_rtt 7, 0), (env_rtt 7, 2)]
       \<lparr>cache = Map.empty, calls = [Called, Called, Called], probes = 0\<rparr>
   = \<lparr>cache = [''10.0.0.1'' \<mapsto> 7], calls = [Returned 7, Returned 5, Returned 7], probes = 2\<rparr>"
  by (simp add: step_def probe_and_store_def env_rtt_def env0_def)

text \<open>
  Without overlap the cache does its work: when the second call starts from the cache
  that the first call left, and the address resolves in the same way at both calls (as
  an IP literal does), the two calls run at most one probe between them, the second
  returns the measurement the first returned and leaves the cache as it found it,
  whatever the network has become in between.
\<close>

lemma pingCached_twice_sequential:
  assumes "NewPinger_ok e2 ip = NewPinger_ok e1 ip"
  shows "(case pingCached e1 PingCache ip of (r1, c1, n1) \<Rightarrow>
          case pingCached e2 c1 ip of (r2, c2, n2) \<Rightarrow> n1 + n2 \<le> 1 \<and> r2 = r1 \<and> c2 = c1)"
  using assms by (auto simp: pingCached_def probe_and_store_def Let_def split: option.splits)

section \<open>DetectHosts: input failures (C8) and the order of the results (C2)\<close>

text \<open>
  C8. When the domain file cannot be opened, the scanner reports an error, or no domain
  is left after filtering, DetectHosts returns an error and no results whatever the
  outside world and the scheduling are, starts no per-domain task and leaves the cache
  untouched: the failure precedes every DNS query, HTTP request and echo probe.
\<close>

theorem DetectHosts_input_failure:
  assumes "snd (readDomainFile f) \<noteq> None \<or> fst (readDomainFile f) = []"
  shows "\<exists>err. \<forall>e arrival. DetectHosts e PingCache f arrival = (Inl err, PingCache, 0)"
  using assms by (cases "readDomainFile f") (auto simp: DetectHosts_def split: option.splits)

lemma comments_only: "readDomainFile (Opened [''# mirrors'', ''   '', ''#github.com''] False) = ([], None)"
  by code_simp

text \<open>A domain file of comments and blank lines.\<close>

theorem DetectHosts_input_failure_witness:
  "fst (readDomainFile (Opened [''# mirrors'', ''   '', ''#github.com''] False)) = []
   \<and> (\<exists>err. \<forall>e arrival. DetectHosts e Map.empty (Opened [''# mirrors'', ''   '', ''#github.com''] False) arrival
                = (Inl err, Map.empty, 0))"
  using DetectHosts_input_failure[of "Opened [''# mirrors'', ''   '', ''#github.com''] False" Map.empty]
  by (simp add: comments_only)

text \<open>
  When no domain is listed twice, \<open>domainOrder\<close> gives each domain its position and the
  sort restores the input order, whatever the order in which the tasks deliver.
\<close>

lemma processHost_Domain: "Domain (fst (processHost e c d)) = d"
  by (auto simp: processHost_def split: prod.splits sum.splits)

lemma run_tasks_Domains:
  "map Domain (fst (run_tasks e c results tasks)) = map Domain results @ tasks"
proof (induction tasks arbitrary: c results)
  case Nil
  show ?case by simp
next
  case (Cons d tasks)
  obtain r c' where p: "processHost e c d = (r, c')" by (cases "processHost e c d") auto
  have "Domain r = d" using processHost_Domain[of e c d] by (simp add: p)
  then show ?case using Cons[of c' "results @ [r]"] by (simp add: p)
qed

lemma domainOrder_loop_other:
  "d \<notin> set domains \<Longrightarrow> domainOrder_loop m k domains d = m d"
  by (induction domains arbitrary: m k) auto

lemma domainOrder_loop_nth:
  "distinct domains \<Longrightarrow> i < length domains \<Longrightarrow> domainOrder_loop m k domains (domains ! i) = Some (k + i)"
proof (induction domains arbitrary: m k i)
  case Nil
  then show ?case by simp
next
  case (Cons d domains)
  show ?case
  proof (cases i)
    case 0
    then show ?thesis using Cons.prems by (simp add: domainOrder_loop_other)
  next
    case (Suc j)
    have "domainOrder_loop (m(d \<mapsto> k)) (k + 1) domains (domains ! j) = Some (k + 1 + j)"
      using Cons.prems Suc by (intro Cons.IH) auto
    then show ?thesis using Suc by simp
  qed
qed

lemma domainOrder_indices:
  assumes "distinct domains"
  shows "map (map_get (domainOrder_loop Map.empty 0 domains)) domains = [0..<length domains]"
  by (rule nth_equalityI) (simp_all add: map_get_def domainOrder_loop_nth[OF assms])

lemma order_results_distinct:
  assumes d: "distinct domains" and m: "mset (map Domain results) = mset domains"
  shows "map Domain (order_results domains results) = domains"
proof -
  define idx where "idx = map_get (domainOrder_loop Map.empty 0 domains)"
  define ys where "ys = order_results domains results"
  have ys: "ys = sort_Slice (\<lambda>x y. idx (Domain x) < idx (Domain y)) results"
    by (simp add: ys_def order_results_def idx_def Let_def)
  have c: "mset ys = mset results" "sorted (map (\<lambda>r. idx (Domain r)) ys)"
    using sort_Slice_correct[of "\<lambda>x y. idx (Domain x) < idx (Domain y)" "\<lambda>r. idx (Domain r)" results]
    by (simp_all add: ys)
  have ms: "mset (map Domain ys) = mset domains"
    using c(1) m by (metis mset_map)
  have idxs: "map idx domains = [0..<length domains]"
    unfolding idx_def using d by (rule domainOrder_indices)
  have s1: "sorted (map idx (map Domain ys))" using c(2) by (simp add: comp_def)
  have s2: "sorted (map idx domains)" by (simp add: idxs)
  have "mset (map idx (map Domain ys)) = mset (map idx domains)"
    using ms by (metis mset_map)
  then have e: "map idx (map Domain ys) = map idx domains"
    using s1 s2 by (metis properties_for_sort)
  have "distinct (map idx domains)" by (simp add: idxs)
  then have inj: "inj_on idx (set domains)" by (simp add: distinct_map)
  have "set (map Domain ys) = set domains" using ms by (rule mset_eq_setD)
  then have "inj_on idx (set (map Domain ys) \<union> set domains)" using inj by simp
  then have "map Domain ys = domains" using e by (rule map_inj_on[rotated])
  then show ?thesis by (simp add: ys_def)
qed

lemma DetectHosts_distinct_order:
  assumes f: "readDomainFile f = (domains, None)" and ne: "domains \<noteq> []"
    and d: "distinct domains" and a: "mset arrival = mset [0..<length domains]"
  shows "\<exists>rs. fst (DetectHosts e c f arrival) = Inr rs \<and> map Domain rs = domains"
proof -
  obtain results c' where r: "run_tasks e c [] (map (\<lambda>i. domains ! i) arrival) = (results, c')"
    by (cases "run_tasks e c [] (map (\<lambda>i. domains ! i) arrival)") auto
  have "map Domain results = map (\<lambda>i. domains ! i) arrival"
    using run_tasks_Domains[of e c "[]" "map (\<lambda>i. domains ! i) arrival"] by (simp add: r)
  then have "mset (map Domain results) = image_mset (\<lambda>i. domains ! i) (mset arrival)"
    by simp
  also have "\<dots> = mset (map (\<lambda>i. domains ! i) [0..<length domains])"
    unfolding a by simp
  also have "\<dots> = mset domains" by (simp add: map_nth)
  finally have m: "mset (map Domain results) = mset domains" .
  have "fst (DetectHosts e c f arrival) = Inr (order_results domains results)"
    using ne by (simp add: DetectHosts_def f r)
  then show ?thesis using order_results_distinct[OF d m] by simp
qed

text \<open>
  C2 fails on a domain list that names a domain twice: for the lines \<open>a.example\<close>,
  \<open>b.example\<close>, \<open>a.example\<close> the results come back in the order \<open>b.example\<close>,
  \<open>a.example\<close>, \<open>a.example\<close>, because \<open>domainOrder\<close> keeps the last position of a domain only.
\<close>

theorem DetectHosts_duplicate_domains:
  "map Domain (projr (fst (DetectHosts env0 Map.empty
       (Opened [''a.example'', ''b.example'', ''a.example''] False) [0, 1, 2])))
   = [''b.example'', ''a.example'', ''a.example'']"
  by code_simp

section \<open>The semaphore (C9)\<close>

lemma filter_update_count:
  "i < length xs \<Longrightarrow>
   length (filter P (xs[i := y])) + (if P (xs ! i) then 1 else 0)
     = length (filter P xs) + (if P y then 1 else 0)"
proof (induction xs arbitrary: i)
  case Nil
  then show ?case by simp
next
  case (Cons x xs)
  show ?case
  proof (cases i)
    case 0
    then show ?thesis by simp
  next
    case (Suc k)
    with Cons.prems have "k < length xs" by simp
    from Cons.IH[OF this] Suc show ?thesis by simp
  qed
qed

lemma acquire_invariant:
  assumes "acquire i p = Some p'" and "sem p = active_count p"
  shows "sem p' = active_count p' \<and> sem p' \<le> MaxConcurrent"
proof -
  from assms(1) have i: "i < length (phases p)" "phases p ! i = Pending" "sem p < MaxConcurrent"
    and p': "p' = \<lparr>sem = sem p + 1, phases = (phases p)[i := Active]\<rparr>"
    by (auto simp: acquire_def split: if_splits)
  from filter_update_count[OF i(1), of "\<lambda>ph. ph = Active" Active] i(2)
  have a: "active_count p' = active_count p + 1" by (simp add: active_count_def p')
  have s: "sem p' = sem p + 1" by (simp add: p')
  show ?thesis using a s assms(2) i(3) by arith
qed

lemma release_invariant:
  assumes "release i p = Some p'" and "sem p = active_count p" and "sem p \<le> MaxConcurrent"
  shows "sem p' = active_count p' \<and> sem p' \<le> MaxConcurrent"
proof -
  from assms(1) have i: "i < length (phases p)" "phases p ! i = Active" "sem p > 0"
    and p': "p' = \<lparr>sem = sem p - 1, phases = (phases p)[i := Finished]\<rparr>"
    by (auto simp: release_def split: if_splits)
  from filter_update_count[OF i(1), of "\<lambda>ph. ph = Active" Finished] i(2)
  have a: "active_count p' + 1 = active_count p" by (simp add: active_count_def p')
  have s: "sem p' = sem p - 1" by (simp add: p')
  show ?thesis using a s assms(2,3) i(3) by arith
qed

lemma reachable_invariant:
  "reachable n p \<Longrightarrow> sem p = active_count p \<and> sem p \<le> MaxConcurrent"
proof (induction rule: reachable.induct)
  case start
  then show ?case by (simp add: start_pool_def active_count_def)
next
  case (acquired p i p')
  then show ?case using acquire_invariant by blast
next
  case (released p i p')
  then show ?case using release_invariant by blast
qed

text \<open>
  C9. In every state the tasks of one DetectHosts pass can reach, for any number of
  domains, at most MaxConcurrent tasks are between their send on the semaphore and their
  receive from it, the stretch in which processHost runs.
\<close>

theorem semaphore_bound:
  assumes "reachable n p"
  shows "active_count p \<le> MaxConcurrent"
  using reachable_invariant[OF assms] by simp

lemma acquire_all_reachable:
  "reachable n p \<Longrightarrow> acquire_all is p = Some p' \<Longrightarrow> reachable n p'"
  by (induction "is" arbitrary: p) (auto split: option.splits intro: reachable.acquired)

lemma ten_active:
  "acquire_all [0, 1, 2, 3, 4, 5, 6, 7, 8, 9] (start_pool 12)
     = Some \<lparr>sem = 10, phases = replicate 10 Active @ replicate 2 Pending\<rparr>"
  by (simp add: acquire_def start_pool_def MaxConcurrent_def numeral_eq_Suc)

text \<open>Twelve domains: once ten tasks hold the semaphore, the eleventh cannot acquire it.\<close>

theorem semaphore_bound_witness:
  "reachable 12 \<lparr>sem = 10, phases = replicate 10 Active @ replicate 2 Pending\<rparr>
   \<and> active_count \<lparr>sem = 10, phases = replicate 10 Active @ replicate 2 Pending\<rparr> \<le> MaxConcurrent
   \<and> acquire 10 \<lparr>sem = 10, phases = replicate 10 Active @ replicate 2 Pending\<rparr> = None"
proof -
  have r: "reachable 12 \<lparr>sem = 10, phases = replicate 10 Active @ replicate 2 Pending\<rparr>"
    using acquire_all_reachable[OF reachable.start ten_active] .
  have "acquire 10 \<lparr>sem = 10, phases = replicate 10 Active @ replicate 2 Pending\<rparr> = None"
    by (simp add: acquire_def MaxConcurrent_def)
  with r semaphore_bound[OF r] show ?thesis by simp
qed

section \<open>selectBestIP (C1)\<close>

subsection \<open>Insertion sort keeps equal keys in order\<close>

lemma Swap_adjacent:
  "Swap (us @ x # y # vs) (Suc (length us)) (length us) = us @ y # x # vs"
proof -
  have a: "(us @ x # y # vs) ! length us = x" by simp
  have b: "(us @ x # y # vs) ! Suc (length us) = y"
    using nth_append_length_plus[of us "x # y # vs" 1] by simp
  have c: "(us @ x # y # vs)[length us := y] = us @ y # y # vs" by simp
  have d: "(us @ y # y # vs)[Suc (length us) := x] = us @ y # x # vs"
    using list_update_length[of "us @ [y]" y vs x] by simp
  have e: "(us @ x # y # vs)[Suc (length us) := x] = us @ x # x # vs"
    using list_update_length[of "us @ [x]" y vs x] by simp
  have f: "(us @ x # x # vs)[length us := y] = us @ y # x # vs" by simp
  show ?thesis unfolding Swap_def a b by (simp only: c d e f)
qed

lemma adjacent_split:
  assumes "0 < j" "j < length xs"
  shows "xs = take (j - 1) xs @ xs ! (j - 1) # xs ! j # drop (Suc j) xs"
proof -
  obtain i where i: "j = Suc i" using assms(1) by (cases j) auto
  have "drop i xs = xs ! i # drop (Suc i) xs"
    using assms i by (simp add: Cons_nth_drop_Suc)
  moreover have "drop (Suc i) xs = xs ! Suc i # drop (Suc (Suc i)) xs"
    using assms i by (simp add: Cons_nth_drop_Suc)
  ultimately have "take i xs @ xs ! i # xs ! Suc i # drop (Suc (Suc i)) xs = take i xs @ drop i xs"
    by simp
  then show ?thesis using i by simp
qed

lemma Swap_filter:
  fixes key :: "'a \<Rightarrow> 'b::linorder"
  assumes "0 < j" "j < length xs" "key (xs ! j) \<noteq> key (xs ! (j - 1))"
  shows "filter (\<lambda>x. key x = k) (Swap xs j (j - 1)) = filter (\<lambda>x. key x = k) xs"
proof -
  define us where "us = take (j - 1) xs"
  define vs where "vs = drop (Suc j) xs"
  define x where "x = xs ! (j - 1)"
  define y where "y = xs ! j"
  have xs: "xs = us @ x # y # vs"
    unfolding us_def vs_def x_def y_def using assms(1,2) by (rule adjacent_split)
  have lus: "length us = j - 1" using assms by (simp add: us_def)
  have ne: "key y \<noteq> key x" using assms(3) by (simp add: x_def y_def)
  have "Swap (us @ x # y # vs) (Suc (length us)) (length us) = us @ y # x # vs"
    by (rule Swap_adjacent)
  then have sw: "Swap xs j (j - 1) = us @ y # x # vs"
    using xs lus assms(1) by simp
  have "filter (\<lambda>x. key x = k) (us @ y # x # vs) = filter (\<lambda>x. key x = k) (us @ x # y # vs)"
    using ne by auto
  then show ?thesis unfolding sw using xs by simp
qed

lemma insertion_inner_stable:
  fixes key :: "'a \<Rightarrow> 'b::linorder"
  shows "\<forall>x y. lt x y = (key x < key y) \<Longrightarrow> j < length data
     \<Longrightarrow> filter (\<lambda>x. key x = k) (insertion_inner lt data a j) = filter (\<lambda>x. key x = k) data"
proof (induction lt data a j rule: insertion_inner.induct)
  case (1 lt data a j)
  show ?case
  proof (cases "j > a \<and> lt (data ! j) (data ! (j - 1))")
    case True
    then have ne: "key (data ! j) \<noteq> key (data ! (j - 1))" using "1.prems"(1) by auto
    have "filter (\<lambda>x. key x = k) (insertion_inner lt (Swap data j (j - 1)) a (j - 1))
        = filter (\<lambda>x. key x = k) (Swap data j (j - 1))"
      using True "1.prems" by (intro "1.IH") auto
    also have "\<dots> = filter (\<lambda>x. key x = k) data"
      using True "1.prems"(2) ne by (intro Swap_filter) auto
    finally show ?thesis using True by (subst insertion_inner.simps) simp
  next
    case False
    then show ?thesis by (subst insertion_inner.simps) auto
  qed
qed

lemma insertion_inner_length: "length (insertion_inner lt data a j) = length data"
  by (induction lt data a j rule: insertion_inner.induct) (subst insertion_inner.simps, auto)

lemma insertion_outer_stable:
  fixes key :: "'a \<Rightarrow> 'b::linorder"
  shows "\<forall>x y. lt x y = (key x < key y) \<Longrightarrow> b \<le> length data
     \<Longrightarrow> filter (\<lambda>x. key x = k) (insertion_outer lt data a b i) = filter (\<lambda>x. key x = k) data"
proof (induction lt data a b i rule: insertion_outer.induct)
  case (1 lt data a b i)
  show ?case
  proof (cases "i < b")
    case True
    have "filter (\<lambda>x. key x = k) (insertion_outer lt (insertion_inner lt data a i) a b (i + 1))
        = filter (\<lambda>x. key x = k) (insertion_inner lt data a i)"
      using True "1.prems" by (intro "1.IH") (auto simp: insertion_inner_length)
    also have "\<dots> = filter (\<lambda>x. key x = k) data"
      using True "1.prems" by (intro insertion_inner_stable) auto
    finally show ?thesis using True by (subst insertion_outer.simps) simp
  next
    case False
    then show ?thesis by (subst insertion_outer.simps) auto
  qed
qed

lemma sort_Slice_stable_small:
  fixes key :: "'a \<Rightarrow> 'b::linorder"
  assumes "\<forall>x y. lt x y = (key x < key y)" "length xs \<le> 12"
  shows "filter (\<lambda>x. key x = k) (sort_Slice lt xs) = filter (\<lambda>x. key x = k) xs"
proof -
  have "sort_Slice lt xs = insertion_outer lt xs 0 (length xs) (0 + 1)"
    using assms(2) unfolding sort_Slice_def insertionSort_func_def[symmetric]
    by (subst pdqsort_func.simps) (simp only: diff_zero if_True)
  then show ?thesis using assms(1) by (simp add: insertion_outer_stable)
qed

lemma hd_filter_index:
  "filter P xs \<noteq> [] \<Longrightarrow> \<exists>i<length xs. hd (filter P xs) = xs ! i \<and> (\<forall>j<i. \<not> P (xs ! j))"
proof (induction xs)
  case Nil
  then show ?case by simp
next
  case (Cons x xs)
  show ?case
  proof (cases "P x")
    case True
    then show ?thesis by (intro exI[of _ 0]) simp
  next
    case False
    then obtain i where i: "i < length xs" "hd (filter P xs) = xs ! i" "\<forall>j<i. \<not> P (xs ! j)"
      using Cons by auto
    show ?thesis
    proof (intro exI[of _ "Suc i"] conjI allI impI)
      show "Suc i < length (x # xs)" using i by simp
      show "hd (filter P (x # xs)) = (x # xs) ! Suc i" using i False by simp
      fix j assume "j < Suc i"
      then show "\<not> P ((x # xs) ! j)" using i False by (cases j) auto
    qed
  qed
qed

text \<open>The head of the sorted slice: minimal, and for up to 12 elements the first minimal one.\<close>

lemma sort_Slice_head:
  fixes key :: "'a \<Rightarrow> 'b::linorder"
  assumes lt: "\<forall>x y. lt x y = (key x < key y)" and ne: "xs \<noteq> []"
  shows "\<exists>i<length xs. sort_Slice lt xs ! 0 = xs ! i
           \<and> (\<forall>j<length xs. key (xs ! i) \<le> key (xs ! j))
           \<and> (length xs \<le> 12 \<longrightarrow> (\<forall>j<i. key (xs ! i) < key (xs ! j)))"
proof -
  define ys where "ys = sort_Slice lt xs"
  have c: "mset ys = mset xs" "sorted (map key ys)"
    using sort_Slice_correct[OF lt, of xs] by (auto simp: ys_def)
  have set_eq: "set ys = set xs" using c(1) by (rule mset_eq_setD)
  have yne: "ys \<noteq> []" using c(1) ne by auto
  then have h: "ys ! 0 = hd ys" by (simp add: hd_conv_nth)
  have "hd ys \<in> set ys" using yne by (rule hd_in_set)
  then have hin: "hd ys \<in> set xs" by (simp only: set_eq)
  have minimal: "\<And>x. x \<in> set xs \<Longrightarrow> key (hd ys) \<le> key x"
  proof -
    fix x assume "x \<in> set xs"
    then have "x \<in> set ys" using set_eq by simp
    then show "key (hd ys) \<le> key x" using c(2) yne by (cases ys) auto
  qed
  show ?thesis
  proof (cases "length xs \<le> 12")
    case True
    let ?P = "\<lambda>x. key x = key (hd ys)"
    have f: "filter ?P ys = filter ?P xs"
      using sort_Slice_stable_small[OF lt True] by (simp add: ys_def)
    have "hd (filter ?P ys) = hd ys" using yne by (cases ys) auto
    moreover have "filter ?P xs \<noteq> []" using f yne by (cases ys) auto
    ultimately obtain i where i: "i < length xs" "hd ys = xs ! i" "\<forall>j<i. \<not> ?P (xs ! j)"
      using hd_filter_index[of ?P xs] f by auto
    show ?thesis
    proof (intro exI[of _ i] conjI allI impI)
      show "i < length xs" by (rule i(1))
      show "sort_Slice lt xs ! 0 = xs ! i" using i h by (simp add: ys_def)
    next
      fix j assume "j < length xs"
      then show "key (xs ! i) \<le> key (xs ! j)" using minimal[of "xs ! j"] i by simp
    next
      fix j assume j: "j < i"
      then have "key (xs ! j) \<noteq> key (hd ys)" using i by simp
      moreover have "key (hd ys) \<le> key (xs ! j)" using minimal[of "xs ! j"] j i(1) by simp
      ultimately show "key (xs ! i) < key (xs ! j)" using i(2) by simp
    qed
  next
    case False
    obtain i where i: "i < length xs" "hd ys = xs ! i" using hin by (auto simp: in_set_conv_nth)
    show ?thesis
    proof (intro exI[of _ i] conjI allI impI)
      show "i < length xs" by (rule i(1))
      show "sort_Slice lt xs ! 0 = xs ! i" using i h by (simp add: ys_def)
    next
      fix j assume "j < length xs"
      then show "key (xs ! i) \<le> key (xs ! j)" using minimal[of "xs ! j"] i by simp
    next
      fix j assume "length xs \<le> 12"
      then show "key (xs ! i) < key (xs ! j)" using False by simp
    qed
  qed
qed

lemma ping_loop_IPs:
  "map ipPing_IP (fst (ping_loop e c acc ipList)) = map ipPing_IP acc @ ipList"
proof (induction ipList arbitrary: c acc)
  case Nil
  show ?case by simp
next
  case (Cons ip ipList)
  obtain t c' n where p: "pingCached e c ip = (t, c', n)"
    by (cases "pingCached e c ip") auto
  show ?case
    using Cons[of c' "acc @ [\<lparr>ipPing_IP = ip, ipPing_Ping = t\<rparr>]"] by (simp add: p)
qed

lemma ping_loop_length: "length (fst (ping_loop e c [] ipList)) = length ipList"
proof -
  have "length (map ipPing_IP (fst (ping_loop e c [] ipList))) = length ipList"
    by (simp only: ping_loop_IPs list.map append_Nil)
  then show ?thesis by (simp only: length_map)
qed

subsection \<open>The sort of the thirteen candidates\<close>

text \<open>
  With more than twelve elements sort.Slice takes the pivot path. For the thirteen
  candidates the pivot chosen is the seventh element, the partition moves it to the
  front, and the insertion sort of the other twelve leaves it there.
\<close>

lemma choosePivot13:
  "choosePivot_func (\<lambda>x y. ipPing_Ping x < ipPing_Ping y) probe13 0 13 = (6, increasingHint)"
  by code_simp

lemma partialInsertionSort13:
  "partialInsertionSort_func (\<lambda>x y. ipPing_Ping x < ipPing_Ping y) probe13 0 13 = (False, probe13)"
  by code_simp

lemma partition13:
  "partition_func (\<lambda>x y. ipPing_Ping x < ipPing_Ping y) probe13 0 13 6 = (0, True, Swap probe13 0 6)"
  by code_simp

lemma bits_Len13: "bits_Len 13 = 4"
  by code_simp


lemma pdqsort_short:
  "b - a \<le> 12 \<Longrightarrow> pdqsort_func lt data a b limit wb wp = insertionSort_func lt data a b"
  by (subst pdqsort_func.simps) (simp only: if_True)

lemma insertionSort_empty: "insertionSort_func lt data a a = data"
  unfolding insertionSort_func_def by (subst insertion_outer.simps) simp

lemma probe13_length: "length probe13 = 13"
  unfolding probe13_def by (simp only: ping_loop_length) (simp add: ips13_def)

lemma pdqsort13:
  "sort_Slice (\<lambda>x y. ipPing_Ping x < ipPing_Ping y) probe13
     = insertionSort_func (\<lambda>x y. ipPing_Ping x < ipPing_Ping y) (Swap probe13 0 6) 1 13"
proof -
  let ?lt = "\<lambda>x y. ipPing_Ping x < ipPing_Ping y"
  have "sort_Slice ?lt probe13 = pdqsort_func ?lt probe13 0 13 4 True True"
    by (simp only: sort_Slice_def probe13_length bits_Len13)
  also have "\<dots> = pdqsort_func ?lt (pdqsort_func ?lt (Swap probe13 0 6) 0 0 4 True True) (0 + 1) 13 4
                      (0 - 0 \<ge> (13 - 0) div (8::nat)) True"
    by (subst pdqsort_func.simps) (simp add: choosePivot13 partialInsertionSort13 partition13)
  also have "\<dots> = insertionSort_func ?lt (Swap probe13 0 6) 1 13"
    by (simp add: pdqsort_short insertionSort_empty)
  finally show ?thesis .
qed

lemma sort13_head: "sort_Slice (\<lambda>x y. ipPing_Ping x < ipPing_Ping y) probe13 ! 0 = probe13 ! 6"
proof -
  let ?lt = "\<lambda>x y. ipPing_Ping x < ipPing_Ping y"
  have "perm_on 1 13 (Swap probe13 0 6) (insertionSort_func ?lt (Swap probe13 0 6) 1 13)"
    using insertionSort_correct[of ?lt ipPing_Ping 13 "Swap probe13 0 6" 1]
    by (simp add: probe13_length)
  then have "insertionSort_func ?lt (Swap probe13 0 6) 1 13 ! 0 = Swap probe13 0 6 ! 0"
    by (rule perm_on_outside) (simp_all add: probe13_length)
  also have "\<dots> = probe13 ! 6"
    by (simp add: Swap_nth probe13_length)
  finally show ?thesis by (simp only: pdqsort13)
qed

lemma select13: "fst (selectBestIP env13 Map.empty ips13) = ''10.0.0.16''"
proof -
  obtain rs' c' where pl: "ping_loop env13 Map.empty [] ips13 = (rs', c')"
    by (cases "ping_loop env13 Map.empty [] ips13") auto
  have rs: "rs' = probe13" by (simp add: probe13_def pl)
  have "length ips13 \<noteq> 0" by (simp add: ips13_def)
  then have "fst (selectBestIP env13 Map.empty ips13)
      = ipPing_IP (sort_Slice (\<lambda>x y. ipPing_Ping x < ipPing_Ping y) probe13 ! 0)"
    unfolding selectBestIP_def pl rs by (simp add: Let_def)
  also have "\<dots> = ipPing_IP (probe13 ! 6)" by (simp only: sort13_head)
  also have "\<dots> = map ipPing_IP probe13 ! 6" by (simp add: probe13_length)
  also have "\<dots> = ips13 ! 6" unfolding probe13_def by (simp only: ping_loop_IPs list.map append_Nil)
  also have "\<dots> = ''10.0.0.16''" by (simp add: ips13_def)
  finally show ?thesis .
qed

subsection \<open>The address selected\<close>

lemma selectBestIP_cache:
  "ipList \<noteq> [] \<Longrightarrow> snd (selectBestIP e c ipList) = snd (ping_loop e c [] ipList)"
  by (cases "ping_loop e c [] ipList") (simp add: selectBestIP_def Let_def)

lemma selectBestIP_member:
  assumes "ipList \<noteq> []"
  shows "fst (selectBestIP e c ipList) \<in> set ipList"
proof -
  define rs where "rs = fst (ping_loop e c [] ipList)"
  let ?lt = "\<lambda>x y. ipPing_Ping x < ipPing_Ping y"
  have ips: "map ipPing_IP rs = ipList" using ping_loop_IPs[of e c "[]" ipList] by (simp add: rs_def)
  have ne: "rs \<noteq> []" using assms ips by auto
  obtain rs' c' where pl: "ping_loop e c [] ipList = (rs', c')"
    by (cases "ping_loop e c [] ipList") auto
  have "length ipList \<noteq> 0" using assms by simp
  then have best: "fst (selectBestIP e c ipList) = ipPing_IP (sort_Slice ?lt rs ! 0)"
    unfolding selectBestIP_def rs_def pl by (simp add: Let_def)
  obtain i where i: "i < length rs" "sort_Slice ?lt rs ! 0 = rs ! i"
    using sort_Slice_head[of ?lt ipPing_Ping rs] ne by auto
  have "ipPing_IP (rs ! i) \<in> set (map ipPing_IP rs)" using i(1) by simp
  then show ?thesis unfolding best i(2) ips .
qed

text \<open>
  C1, as amended. For a non-empty candidate list selectBestIP returns a candidate of the
  list whose latency in that call is less than or equal to the latency of every
  candidate; and when the list has at most twelve candidates, every candidate before the
  returned one has a strictly greater latency, so of several candidates with the
  minimal latency the first in list order is returned.
\<close>

theorem selectBestIP_minimal:
  assumes "ipList \<noteq> []"
  shows "\<exists>i<length ipList. fst (selectBestIP e PingCache ipList) = ipList ! i
        \<and> (\<forall>j<length ipList. latencies e PingCache ipList ! i \<le> latencies e PingCache ipList ! j)
        \<and> (length ipList \<le> 12 \<longrightarrow>
             (\<forall>j<i. latencies e PingCache ipList ! i < latencies e PingCache ipList ! j))"
proof -
  define rs where "rs = fst (ping_loop e PingCache [] ipList)"
  have len: "length rs = length ipList" by (simp add: rs_def ping_loop_length)
  have ips: "map ipPing_IP rs = ipList" using ping_loop_IPs[of e PingCache "[]" ipList] by (simp add: rs_def)
  have ne: "rs \<noteq> []" using assms len by auto
  have best: "fst (selectBestIP e PingCache ipList)
      = ipPing_IP (sort_Slice (\<lambda>x y. ipPing_Ping x < ipPing_Ping y) rs ! 0)"
  proof -
    obtain rs' c' where pl: "ping_loop e PingCache [] ipList = (rs', c')"
      by (cases "ping_loop e PingCache [] ipList") auto
    have "length ipList \<noteq> 0" using assms by simp
    then show ?thesis unfolding selectBestIP_def rs_def pl by (simp add: Let_def)
  qed
  obtain i where i: "i < length rs" "sort_Slice (\<lambda>x y. ipPing_Ping x < ipPing_Ping y) rs ! 0 = rs ! i"
    "\<forall>j<length rs. ipPing_Ping (rs ! i) \<le> ipPing_Ping (rs ! j)"
    "length rs \<le> 12 \<longrightarrow> (\<forall>j<i. ipPing_Ping (rs ! i) < ipPing_Ping (rs ! j))"
    using sort_Slice_head[of "\<lambda>x y. ipPing_Ping x < ipPing_Ping y" ipPing_Ping rs] ne by auto
  have nthip: "\<And>k. k < length rs \<Longrightarrow> ipPing_IP (rs ! k) = ipList ! k"
  proof -
    fix k assume "k < length rs"
    then have "map ipPing_IP rs ! k = ipPing_IP (rs ! k)" by (rule nth_map)
    then show "ipPing_IP (rs ! k) = ipList ! k" using ips by simp
  qed
  have lat: "\<And>k. k < length rs \<Longrightarrow> latencies e PingCache ipList ! k = ipPing_Ping (rs ! k)"
    by (simp add: latencies_def rs_def)
  show ?thesis
  proof (intro exI[of _ i] conjI allI impI)
    show "i < length ipList" using i len by simp
    show "fst (selectBestIP e PingCache ipList) = ipList ! i" using best i nthip by simp
  next
    fix j assume "j < length ipList"
    then show "latencies e PingCache ipList ! i \<le> latencies e PingCache ipList ! j"
      using i lat len by simp
  next
    fix j assume "length ipList \<le> 12" "j < i"
    then show "latencies e PingCache ipList ! i < latencies e PingCache ipList ! j"
      using i lat len by simp
  qed
qed

text \<open>
  An instance: of three candidates with latencies 1, 5 and 1 the first is returned.
\<close>

theorem selectBestIP_minimal_witness:
  "[''10.0.0.10'', ''10.0.0.11'', ''10.0.0.13''] \<noteq> [] \<and>
   latencies env13 Map.empty [''10.0.0.10'', ''10.0.0.11'', ''10.0.0.13''] = [1, 5, 1] \<and>
   fst (selectBestIP env13 Map.empty [''10.0.0.10'', ''10.0.0.11'', ''10.0.0.13'']) = ''10.0.0.10''"
proof -
  let ?L = "[''10.0.0.10'', ''10.0.0.11'', ''10.0.0.13'']"
  have lat: "latencies env13 Map.empty ?L = [1, 5, 1]" by code_simp
  obtain i where i: "i < length ?L" "fst (selectBestIP env13 Map.empty ?L) = ?L ! i"
    "\<forall>j<i. latencies env13 Map.empty ?L ! i < latencies env13 Map.empty ?L ! j"
    using selectBestIP_minimal[of ?L env13 Map.empty] by auto
  have "i = 0"
  proof (rule ccontr)
    assume "i \<noteq> 0"
    then have "[1, 5, 1::rat] ! i < 1" using i(3) unfolding lat by auto
    moreover have "i = 1 \<or> i = 2" using i(1) \<open>i \<noteq> 0\<close> by auto
    ultimately show False by auto
  qed
  then show ?thesis using i(2) lat by simp
qed

text \<open>
  C1 as stated fails for more than twelve candidates, because sort.Slice is not stable:
  of the thirteen candidates, in lexicographic order, the first, the fourth and the
  seventh share the minimal latency 1, and the seventh is returned.
\<close>

theorem selectBestIP_tie_counterexample:
  "sorted_list_of_set (set ips13) = ips13 \<and>
   latencies env13 Map.empty ips13 = [1, 5, 5, 1, 5, 5, 1, 5, 5, 5, 5, 5, 5] \<and>
   ips13 ! 0 = ''10.0.0.10'' \<and>
   fst (selectBestIP env13 Map.empty ips13) = ''10.0.0.16''"
proof -
  have "sorted ips13 \<and> distinct ips13" by code_simp
  then have "sorted_list_of_set (set ips13) = ips13"
    by (simp add: sorted_list_of_set.idem_if_sorted_distinct)
  moreover have "latencies env13 Map.empty ips13 = [1, 5, 5, 1, 5, 5, 1, 5, 5, 5, 5, 5, 5]"
    by code_simp
  moreover have "ips13 ! 0 = ''10.0.0.10''" by (simp add: ips13_def)
  ultimately show ?thesis using select13 by simp
qed

section \<open>getBestIP (C5)\<close>

subsection \<open>The candidates are made of digits and dots\<close>

lemma is_digit_digit_char: "n < 10 \<Longrightarrow> is_digit (digit_char n)"
  by (simp add: is_digit_def digit_char_def less_eq_char_def)

lemma uitoa_digits: "\<forall>c\<in>set (uitoa n). is_digit c"
proof (induction n rule: uitoa.induct)
  case (1 n)
  show ?case
  proof (cases "n < 10")
    case True
    then show ?thesis by (subst uitoa.simps) (simp add: is_digit_digit_char)
  next
    case False
    then have "\<forall>c\<in>set (uitoa (n div 10)). is_digit c" by (rule "1.IH")
    then show ?thesis using False by (subst uitoa.simps) (simp add: is_digit_digit_char)
  qed
qed

lemma IP_String_dotted: "dotted (IP_String a b c d)"
  using uitoa_digits by (auto simp: dotted_def IP_String_def)

lemma answer_loop_all:
  "\<forall>ip\<in>set allIPs. dotted ip \<Longrightarrow> \<forall>ip\<in>set (answer_loop allIPs answer). dotted ip"
  by (induction allIPs answer rule: answer_loop.induct) (simp_all add: IP_String_dotted)

lemma server_loop_all:
  "\<forall>ip\<in>set allIPs. dotted ip \<Longrightarrow> \<forall>ip\<in>set (server_loop exchange allIPs servers). dotted ip"
proof (induction servers arbitrary: allIPs)
  case Nil
  then show ?case by simp
next
  case (Cons server servers)
  show ?case
  proof (cases "exchange server")
    case (Inl err)
    then show ?thesis using Cons by simp
  next
    case (Inr answer)
    have a: "\<forall>ip\<in>set (answer_loop allIPs answer). dotted ip"
      using Cons.prems by (rule answer_loop_all)
    then have "\<forall>ip\<in>set (server_loop exchange (answer_loop allIPs answer) servers). dotted ip"
      by (rule Cons.IH)
    then show ?thesis using Inr a by (simp add: Let_def)
  qed
qed

lemma getIPFromDNS_dotted: "ip \<in> set (fst (getIPFromDNS e domain)) \<Longrightarrow> dotted ip"
  using server_loop_all[of "[]" "dns_Exchange e domain" DNSServers]
  by (simp add: getIPFromDNS_def)

lemma match_digits_dot_dotted: "match_digits_dot s = Some (m, rest) \<Longrightarrow> dotted m"
  by (auto simp: match_digits_dot_def Let_def dotted_def split: if_splits dest: set_takeWhileD)

lemma match_digits_end_digits:
  "match_digits_end s = Some (m, rest) \<Longrightarrow> \<forall>c\<in>set m. is_digit c"
  by (auto simp: match_digits_end_def Let_def split: if_splits dest: set_takeWhileD)

lemma dotted_append: "dotted u \<Longrightarrow> \<forall>c\<in>set v. is_digit c \<or> c = CHR ''.'' \<Longrightarrow> dotted (u @ v)"
  by (auto simp: dotted_def)

lemma match_here_dotted:
  assumes "match_here s = Some (m, rest)"
  shows "dotted m"
proof -
  obtain m1 s1 m2 s2 m3 s3 m4 where
    1: "match_digits_dot s = Some (m1, s1)" and 2: "match_digits_dot s1 = Some (m2, s2)" and
    3: "match_digits_dot s2 = Some (m3, s3)" and 4: "match_digits_end s3 = Some (m4, rest)" and
    m: "m = m1 @ m2 @ m3 @ m4"
    using assms by (auto simp: match_here_def split: option.splits)
  have d: "dotted m1" "dotted m2" "dotted m3"
    using 1 2 3 by (auto dest: match_digits_dot_dotted)
  have e: "\<forall>c\<in>set m4. is_digit c" using 4 by (rule match_digits_end_digits)
  show ?thesis unfolding m using d e by (auto simp: dotted_def)
qed

lemma FindAllString_from_dotted:
  "ip \<in> set (FindAllString_from prev_word s) \<Longrightarrow> dotted ip"
proof (induction prev_word s rule: FindAllString_from.induct)
  case (1 prev_word)
  then show ?case by simp
next
  case (2 prev_word c cs)
  show ?case
  proof (cases prev_word)
    case True
    then show ?thesis using 2 by simp
  next
    case False
    show ?thesis
    proof (cases "match_here (c # cs)")
      case None
      then show ?thesis using 2 False by simp
    next
      case (Some r)
      obtain m rest where r: "r = (m, rest)" by (cases r)
      have "ip = m \<or> ip \<in> set (FindAllString_from True rest)"
        using "2.prems" False Some r by simp
      moreover have "dotted m" using Some r by (auto dest: match_here_dotted)
      moreover have "ip \<in> set (FindAllString_from True rest) \<Longrightarrow> dotted ip"
        using "2.IH"(3) False Some r by auto
      ultimately show ?thesis by auto
    qed
  qed
qed

lemma getIPFromWeb_dotted: "ip \<in> set (fst (getIPFromWeb e domain)) \<Longrightarrow> dotted ip"
  by (auto simp: getIPFromWeb_def FindAllString_def split: option.splits dest: FindAllString_from_dotted)

lemma candidates_dotted: "ip \<in> set (candidates e domain) \<Longrightarrow> dotted ip"
  by (auto simp: candidates_def dest: getIPFromWeb_dotted getIPFromDNS_dotted)

subsection \<open>On such strings net.ParseIP is the IPv4 parser\<close>

lemma digit_not_sep: "is_digit c \<Longrightarrow> c \<noteq> CHR '':'' \<and> c \<noteq> CHR ''%''"
  by (auto simp: is_digit_def less_eq_char_def)

lemma ParseIP_scan_dotted:
  "\<forall>c\<in>set t. is_digit c \<or> c = CHR ''.'' \<Longrightarrow>
   ParseIP_scan e s t = (CHR ''.'' \<in> set t \<and> parseIPv4 s)"
proof (induction t)
  case Nil
  then show ?case by simp
next
  case (Cons c t)
  show ?case
  proof (cases "c = CHR ''.''")
    case True
    then show ?thesis by simp
  next
    case False
    then have "is_digit c" using Cons.prems by simp
    then have "c \<noteq> CHR '':''" "c \<noteq> CHR ''%''" using digit_not_sep by auto
    then show ?thesis using False Cons by simp
  qed
qed

lemma ParseIP_dotted: "dotted s \<Longrightarrow> ParseIP e s = parseIPv4 s"
  unfolding ParseIP_def dotted_def by (simp add: ParseIP_scan_dotted)

subsection \<open>The set built by getBestIP\<close>

lemma ipSet_loop_eq:
  "ipSet_loop e ipSet ips = ipSet \<union> set (filter (\<lambda>ip. ip \<notin> set DiscardList \<and> ParseIP e ip) ips)"
  by (induction ips arbitrary: ipSet) (auto simp: Let_def)

lemma ipSet_filtered:
  "ipSet_loop e {} (fst (getIPFromWeb e domain) @ fst (getIPFromDNS e domain)) = filtered e domain"
proof -
  have "filter (\<lambda>ip. ip \<notin> set DiscardList \<and> ParseIP e ip) (candidates e domain)
      = filter (\<lambda>ip. ip \<notin> set DiscardList \<and> parseIPv4 ip) (candidates e domain)"
    by (rule filter_cong) (auto simp: ParseIP_dotted dest: candidates_dotted)
  then show ?thesis
    unfolding ipSet_loop_eq filtered_def by (simp add: candidates_def)
qed

subsection \<open>The probes and the cache after them\<close>

lemma pingCached_cache:
  "fst (snd (pingCached e c ip))
     = (if c ip = None \<and> NewPinger_ok e ip then c(ip \<mapsto> probe_value e ip) else c)"
  by (auto simp: pingCached_def probe_and_store_def probe_value_def Let_def split: option.splits)

lemma pingCached_runs:
  "snd (snd (pingCached e c ip)) = (if c ip = None \<and> NewPinger_ok e ip then 1 else 0)"
  by (auto simp: pingCached_def probe_and_store_def Let_def split: option.splits)

lemma ping_loop_cache:
  "distinct ipList \<Longrightarrow>
   snd (ping_loop e c acc ipList) a
     = (if a \<in> set ipList \<and> c a = None \<and> NewPinger_ok e a then Some (probe_value e a) else c a)"
proof (induction ipList arbitrary: c acc)
  case Nil
  show ?case by simp
next
  case (Cons ip ipList)
  obtain t c1 n where p: "pingCached e c ip = (t, c1, n)"
    by (cases "pingCached e c ip") auto
  have c1: "c1 = (if c ip = None \<and> NewPinger_ok e ip then c(ip \<mapsto> probe_value e ip) else c)"
    using pingCached_cache[of e c ip] by (simp add: p)
  have d: "distinct ipList" and ni: "ip \<notin> set ipList" using Cons.prems by auto
  have "snd (ping_loop e c (acc) (ip # ipList)) a
      = snd (ping_loop e c1 (acc @ [\<lparr>ipPing_IP = ip, ipPing_Ping = t\<rparr>]) ipList) a"
    by (simp add: p)
  also have "\<dots> = (if a \<in> set ipList \<and> c1 a = None \<and> NewPinger_ok e a
                     then Some (probe_value e a) else c1 a)"
    using d by (rule Cons.IH)
  also have "\<dots> = (if a \<in> set (ip # ipList) \<and> c a = None \<and> NewPinger_ok e a
                     then Some (probe_value e a) else c a)"
    using ni by (auto simp: c1)
  finally show ?case .
qed

lemma probe_runs_count:
  "distinct ipList \<Longrightarrow>
   probe_runs e c ipList = length (filter (\<lambda>a. c a = None \<and> NewPinger_ok e a) ipList)"
proof (induction ipList arbitrary: c)
  case Nil
  show ?case by simp
next
  case (Cons ip ipList)
  obtain t c1 n where p: "pingCached e c ip = (t, c1, n)"
    by (cases "pingCached e c ip") auto
  have c1: "c1 = (if c ip = None \<and> NewPinger_ok e ip then c(ip \<mapsto> probe_value e ip) else c)"
    using pingCached_cache[of e c ip] by (simp add: p)
  have n: "n = (if c ip = None \<and> NewPinger_ok e ip then 1 else 0)"
    using pingCached_runs[of e c ip] by (simp add: p)
  have d: "distinct ipList" and ni: "ip \<notin> set ipList" using Cons.prems by auto
  have same: "\<And>a. a \<in> set ipList \<Longrightarrow> c1 a = c a" using ni by (auto simp: c1)
  have "probe_runs e c1 ipList = length (filter (\<lambda>a. c1 a = None \<and> NewPinger_ok e a) ipList)"
    using d by (rule Cons.IH)
  also have "filter (\<lambda>a. c1 a = None \<and> NewPinger_ok e a) ipList
           = filter (\<lambda>a. c a = None \<and> NewPinger_ok e a) ipList"
    by (rule filter_cong) (simp_all add: same)
  finally show ?case by (simp add: p n)
qed

text \<open>
  C5. getBestIP merges the addresses of the web source and of the resolvers; what it
  keeps is the set of those that are not on the discard list and that the IPv4 parser
  accepts (the candidates are made of digits and dots, and on such strings net.ParseIP
  is the IPv4 parser). When that set is empty the result is the error and no address,
  with the cache untouched. Otherwise the result is an address of that set, and every
  address of the set has been through the latency test: \<open>pinger.Run()\<close> has been called
  once for each address of the set that had no measurement in the cache and for which a
  pinger could be created, the cache afterwards holds for each of these the value its
  probe gave, and every other entry of the cache is as it was.
\<close>

theorem getBestIP_filtered:
  "(filtered e domain = {} \<longrightarrow> getBestIP e c domain = (Inl NoValidIP, c)) \<and>
   (filtered e domain \<noteq> {} \<longrightarrow>
      (\<exists>ip c'. getBestIP e c domain = (Inr ip, c') \<and> ip \<in> filtered e domain
         \<and> (\<forall>a. c' a = (if a \<in> filtered e domain \<and> c a = None \<and> NewPinger_ok e a
                          then Some (probe_value e a) else c a))
         \<and> probe_runs e c (sorted_list_of_set (filtered e domain))
             = card {a \<in> filtered e domain. c a = None \<and> NewPinger_ok e a}))"
proof (intro conjI impI)
  assume "filtered e domain = {}"
  then show "getBestIP e c domain = (Inl NoValidIP, c)"
    unfolding getBestIP_def by (simp add: ipSet_filtered Let_def)
next
  assume ne: "filtered e domain \<noteq> {}"
  define ipList where "ipList = sorted_list_of_set (filtered e domain)"
  have fin: "finite (filtered e domain)" by (simp add: filtered_def)
  have set_eq: "set ipList = filtered e domain" using fin by (simp add: ipList_def)
  have dist: "distinct ipList" by (simp add: ipList_def)
  have lne: "ipList \<noteq> []" using ne set_eq by auto
  obtain ip c' where sel: "selectBestIP e c ipList = (ip, c')" by (cases "selectBestIP e c ipList") auto
  have g: "getBestIP e c domain = (Inr ip, c')"
    unfolding getBestIP_def using ne sel by (simp add: ipSet_filtered Let_def ipList_def)
  have m: "ip \<in> filtered e domain"
    using selectBestIP_member[OF lne, of e c] by (simp add: sel set_eq)
  have c': "c' = snd (ping_loop e c [] ipList)"
    using selectBestIP_cache[OF lne, of e c] by (simp add: sel)
  have cache: "\<forall>a. c' a = (if a \<in> filtered e domain \<and> c a = None \<and> NewPinger_ok e a
                          then Some (probe_value e a) else c a)"
    unfolding c' using ping_loop_cache[OF dist, of e c "[]"] by (simp add: set_eq)
  have eq: "{a \<in> filtered e domain. c a = None \<and> NewPinger_ok e a}
      = set (filter (\<lambda>a. c a = None \<and> NewPinger_ok e a) ipList)"
    by (auto simp: set_eq)
  have "card (set (filter (\<lambda>a. c a = None \<and> NewPinger_ok e a) ipList))
      = length (filter (\<lambda>a. c a = None \<and> NewPinger_ok e a) ipList)"
    by (rule distinct_card[OF distinct_filter[OF dist]])
  then have "card {a \<in> filtered e domain. c a = None \<and> NewPinger_ok e a}
      = length (filter (\<lambda>a. c a = None \<and> NewPinger_ok e a) ipList)"
    by (simp only: eq)
  then have runs: "probe_runs e c ipList = card {a \<in> filtered e domain. c a = None \<and> NewPinger_ok e a}"
    using probe_runs_count[OF dist, of e c] by simp
  show "\<exists>ip c'. getBestIP e c domain = (Inr ip, c') \<and> ip \<in> filtered e domain
         \<and> (\<forall>a. c' a = (if a \<in> filtered e domain \<and> c a = None \<and> NewPinger_ok e a
                          then Some (probe_value e a) else c a))
         \<and> probe_runs e c (sorted_list_of_set (filtered e domain))
             = card {a \<in> filtered e domain. c a = None \<and> NewPinger_ok e a}"
    using g m cache runs unfolding ipList_def by blast
qed

text \<open>
  An instance: the page names 93.184.216.34, 203.0.113.7, the discarded 127.0.0.1 and
  the invalid 1.2.3.456, and the resolver gives 93.184.216.34 again and 10.0.0.1. Three
  addresses are kept. The cache holds 50 ms for 203.0.113.7 from before: that entry
  stays, the other two addresses are probed, 20 and 30 ms are stored for them, and
  \<open>pinger.Run()\<close> is called twice.
\<close>

theorem getBestIP_filtered_witness:
  "filtered env_example ''example.com'' = {''10.0.0.1'', ''203.0.113.7'', ''93.184.216.34''} \<and>
   (\<exists>ip c'. getBestIP env_example [''203.0.113.7'' \<mapsto> 50] ''example.com'' = (Inr ip, c')
      \<and> (ip = ''10.0.0.1'' \<or> ip = ''203.0.113.7'' \<or> ip = ''93.184.216.34'')
      \<and> c' ''10.0.0.1'' = Some 30 \<and> c' ''93.184.216.34'' = Some 20 \<and> c' ''203.0.113.7'' = Some 50
      \<and> c' ''127.0.0.1'' = None) \<and>
   probe_runs env_example [''203.0.113.7'' \<mapsto> 50] [''10.0.0.1'', ''203.0.113.7'', ''93.184.216.34''] = 2"
proof -
  let ?c = "[''203.0.113.7'' \<mapsto> (50::rat)]"
  let ?F = "{''10.0.0.1'', ''203.0.113.7'', ''93.184.216.34''}"
  have f: "filtered env_example ''example.com'' = ?F"
    by code_simp
  have ok: "\<And>a. NewPinger_ok env_example a" by (simp add: env_example_def)
  have pv: "probe_value env_example ''10.0.0.1'' = 30" "probe_value env_example ''93.184.216.34'' = 20"
    by (simp_all add: probe_value_def env_example_def)
  obtain ip c' where r: "getBestIP env_example ?c ''example.com'' = (Inr ip, c')" "ip \<in> ?F"
    "\<forall>a. c' a = (if a \<in> ?F \<and> ?c a = None \<and> NewPinger_ok env_example a
                   then Some (probe_value env_example a) else ?c a)"
    using getBestIP_filtered[of env_example "''example.com''" ?c] unfolding f by auto
  have "c' ''10.0.0.1'' = Some 30" "c' ''93.184.216.34'' = Some 20" "c' ''203.0.113.7'' = Some 50"
    "c' ''127.0.0.1'' = None"
    using r(3) by (simp_all add: ok pv)
  moreover have "probe_runs env_example ?c [''10.0.0.1'', ''203.0.113.7'', ''93.184.216.34''] = 2"
    by code_simp
  ultimately show ?thesis using r(1,2) f by auto
qed

end
